theory Spec2Isabelle
  imports Complex_Main "HOL-Library.Multiset"
begin

section \<open>bacta: CIGAR scoring (cigar\_scorer.py)\<close>

text \<open>
  A CIGAR string is a Python \<open>str\<close>, modelled as the list of its code points
  (\<open>pystr\<close>); \<open>codepoints\<close> writes one from a literal. The MD tag, whose regular
  expression has ASCII classes only, is a \<open>string\<close> of 8-bit characters. Python integers
  are \<open>int\<close>. Exceptions are values of \<open>error\<close>, returned as \<open>Inl\<close>.
\<close>

datatype error = KeyError | ValueError | IndexError

type_synonym pystr = "nat list"

definition codepoints :: "string \<Rightarrow> pystr" where
  "codepoints s = map of_char s"

subsection \<open>The score table and the letter codes\<close>

text \<open>The dictionary \<open>_cigar_score\<close>: operator code to a function of the length.\<close>

definition cigar_score :: "int \<rightharpoonup> (int \<Rightarrow> int)" where
  "cigar_score = map_of
     [(0, \<lambda>x. x),
      (1, \<lambda>x. - 6 - x),
      (2, \<lambda>x. - 6 - x),
      (3, \<lambda>x. 0),
      (4, \<lambda>x. 0),
      (5, \<lambda>x. 0),
      (6, \<lambda>x. 0),
      (7, \<lambda>x. x),
      (8, \<lambda>x. x * - 1),
      (9, \<lambda>x. 0)]"

definition CIGAR_OPS :: pystr where
  "CIGAR_OPS = codepoints ''MIDNSHP=XB''"

text \<open>\<open>CIGAR2CODE = dict([y, x] for x, y in enumerate("MIDNSHP=XB"))\<close>\<close>

definition CIGAR2CODE :: "nat \<rightharpoonup> int" where
  "CIGAR2CODE = map_of (map (\<lambda>(x, y). (y, int x)) (enumerate 0 CIGAR_OPS))"

subsection \<open>The regular expression \<open>(\d+)([MIDNSHP=XB])\<close>\<close>

text \<open>
  In a \<open>str\<close> pattern \<open>\d\<close> matches every Unicode decimal digit (category Nd), and \<open>int\<close>
  reads each of them by its decimal value. In Unicode 14.0 (Python 3.11) these are 66
  runs of ten code points with the values 0 to 9 in order; the table lists the first
  code point of each run, the ASCII digits first.
\<close>

definition DECIMAL_STARTS :: "nat list" where
  "DECIMAL_STARTS =
     [48, 1632, 1776, 1984, 2406, 2534, 2662, 2790, 2918, 3046, 3174, 3302, 3430, 3558,
      3664, 3792, 3872, 4160, 4240, 6112, 6160, 6470, 6608, 6784, 6800, 6992, 7088, 7232,
      7248, 42528, 43216, 43264, 43472, 43504, 43600, 44016, 65296, 66720, 68912, 69734,
      69872, 69942, 70096, 70384, 70736, 70864, 71248, 71360, 71472, 71904, 72016, 72784,
      73040, 73120, 92768, 92864, 93008, 120782, 120792, 120802, 120812, 120822, 123200,
      123632, 125264, 130032]"

definition isdigit :: "nat \<Rightarrow> bool" where
  "isdigit c = list_ex (\<lambda>s. s \<le> c \<and> c < s + 10) DECIMAL_STARTS"

definition digit_value :: "nat \<Rightarrow> nat" where
  "digit_value c =
     (case find (\<lambda>s. s \<le> c \<and> c < s + 10) DECIMAL_STARTS of
        Some s \<Rightarrow> c - s
      | None \<Rightarrow> 0)"

text \<open>
  One match attempt at the start of the string: the greedy \<open>\d+\<close> takes the whole run of
  digits, and the next character has to be an operator letter. Giving back digits cannot
  help, since the character after a shorter run is a digit. The result is the pair of
  groups and the rest of the string.
\<close>

definition cigar_match_at :: "pystr \<Rightarrow> ((pystr \<times> nat) \<times> pystr) option" where
  "cigar_match_at s =
     (let ds = takeWhile isdigit s in
      if ds = [] then None
      else (case dropWhile isdigit s of
              [] \<Rightarrow> None
            | c # rest \<Rightarrow> if c \<in> set CIGAR_OPS then Some ((ds, c), rest) else None))"

lemma cigar_match_at_shorter:
  "cigar_match_at s = Some (tok, rest) \<Longrightarrow> length rest < length s"
proof -
  assume a: "cigar_match_at s = Some (tok, rest)"
  then obtain c where "dropWhile isdigit s = c # rest"
    by (auto simp: cigar_match_at_def Let_def split: if_splits list.splits)
  moreover have "length (dropWhile isdigit s) \<le> length s"
    by (rule length_dropWhile_le)
  ultimately show ?thesis by simp
qed

text \<open>
  \<open>CIGAR_REGEX.findall\<close>: the matches from left to right, without overlap; where no match
  starts, the scan moves on by one character.
\<close>

function CIGAR_REGEX_findall :: "pystr \<Rightarrow> (pystr \<times> nat) list" where
  "CIGAR_REGEX_findall [] = []"
| "CIGAR_REGEX_findall (c # cs) =
     (case cigar_match_at (c # cs) of
        Some (tok, rest) \<Rightarrow> tok # CIGAR_REGEX_findall rest
      | None \<Rightarrow> CIGAR_REGEX_findall cs)"
  by pat_completeness auto
termination
  by (relation "measure length") (auto dest: cigar_match_at_shorter)

text \<open>
  \<open>int(x)\<close> on a non-empty string of decimal digits, the only strings the first group
  of the regular expression yields. CPython (3.11, and the patched earlier versions)
  raises \<open>ValueError\<close> when the string has more digits than \<open>sys.get_int_max_str_digits()\<close>,
  4300 by default; leading zeros count.
\<close>

definition int_max_str_digits :: nat where
  "int_max_str_digits = 4300"

definition digits_value :: "pystr \<Rightarrow> int" where
  "digits_value ds = foldl (\<lambda>a c. 10 * a + int (digit_value c)) 0 ds"

definition py_int :: "pystr \<Rightarrow> error + int" where
  "py_int ds =
     (if int_max_str_digits < length ds then Inl ValueError else Inr (digits_value ds))"

subsection \<open>The scorer\<close>

text \<open>
  The instance state: the set \<open>cig_warned\<close>, and the calls of \<open>logger.warn\<close> made so far,
  each recorded by the operator code its message
  \<open>Unrecognized operator code found in CIGAR STRING: '<code>'\<close> carries. \<open>Logger.warn\<close> is
  the logging call of the Python versions that have it (it is an alias of \<open>warning\<close>
  up to Python 3.12).
\<close>

record scorer =
  cig_warned :: "int set"
  warned_log :: "int list"

definition init_scorer :: scorer where
  "init_scorer = \<lparr>cig_warned = {}, warned_log = []\<rparr>"

text \<open>
  The list comprehension of \<open>cigarstring_to_tuples\<close>, element by element: a missing key
  raises, and so does \<open>int\<close>.
\<close>

fun tuples_of_parts :: "(pystr \<times> nat) list \<Rightarrow> error + (int \<times> int) list" where
  "tuples_of_parts [] = Inr []"
| "tuples_of_parts ((x, y) # ps) =
     (case CIGAR2CODE y of
        None \<Rightarrow> Inl KeyError
      | Some code \<Rightarrow>
          (case py_int x of
             Inl e \<Rightarrow> Inl e
           | Inr n \<Rightarrow>
               (case tuples_of_parts ps of
                  Inl e \<Rightarrow> Inl e
                | Inr r \<Rightarrow> Inr ((code, n) # r))))"

definition cigarstring_to_tuples :: "pystr \<Rightarrow> error + (int \<times> int) list" where
  "cigarstring_to_tuples cigar = tuples_of_parts (CIGAR_REGEX_findall cigar)"

text \<open>The loop of \<open>score_cigartuples\<close>, with the running score and the instance.\<close>

fun score_loop :: "scorer \<Rightarrow> int \<Rightarrow> (int \<times> int) list \<Rightarrow> int \<times> scorer" where
  "score_loop self score [] = (score, self)"
| "score_loop self score (c # ctups) =
     (case cigar_score (fst c) of
        Some f \<Rightarrow> score_loop self (score + f (snd c)) ctups
      | None \<Rightarrow>
          if fst c \<notin> cig_warned self
          then score_loop
                 (self\<lparr>warned_log := warned_log self @ [fst c],
                       cig_warned := insert (fst c) (cig_warned self)\<rparr>) score ctups
          else score_loop self score ctups)"

definition score_cigartuples :: "scorer \<Rightarrow> (int \<times> int) list \<Rightarrow> int \<times> scorer" where
  "score_cigartuples self ctups = score_loop self 0 ctups"

definition score_cigarstring :: "scorer \<Rightarrow> pystr \<Rightarrow> (error + int) \<times> scorer" where
  "score_cigarstring self cigar =
     (case cigarstring_to_tuples cigar of
        Inl e \<Rightarrow> (Inl e, self)
      | Inr cigartups \<Rightarrow>
          (let (score, self') = score_cigartuples self cigartups in (Inr score, self')))"

subsection \<open>The MD tag\<close>

definition is_letter :: "char \<Rightarrow> bool" where
  "is_letter c = ((65 \<le> (of_char c :: nat) \<and> (of_char c :: nat) \<le> 90) \<or>
                  (97 \<le> (of_char c :: nat) \<and> (of_char c :: nat) \<le> 122))"

text \<open>\<open>str.isalpha\<close> on one character, for the code points below 256.\<close>

definition py_isalpha :: "char \<Rightarrow> bool" where
  "py_isalpha c =
     (let n = (of_char c :: nat) in
      (65 \<le> n \<and> n \<le> 90) \<or> (97 \<le> n \<and> n \<le> 122) \<or> n = 170 \<or> n = 181 \<or> n = 186 \<or>
      (192 \<le> n \<and> n \<le> 214) \<or> (216 \<le> n \<and> n \<le> 246) \<or> (248 \<le> n \<and> n \<le> 255))"

text \<open>
  One match attempt of \<open>([A-Za-z]+|\^[A-Za-z])\<close> at the start of the string: the first
  alternative takes the whole run of letters; the second a caret and one letter.
\<close>

definition md_match_at :: "string \<Rightarrow> (string \<times> string) option" where
  "md_match_at s =
     (let run = takeWhile is_letter s in
      if run \<noteq> [] then Some (run, dropWhile is_letter s)
      else (case s of
              c1 # c2 # rest \<Rightarrow>
                if c1 = CHR ''^'' \<and> is_letter c2 then Some ([c1, c2], rest) else None
            | _ \<Rightarrow> None))"

lemma md_match_at_shorter:
  "md_match_at s = Some (tok, rest) \<Longrightarrow> length rest < length s"
proof -
  assume a: "md_match_at s = Some (tok, rest)"
  show ?thesis
  proof (cases "takeWhile is_letter s = []")
    case True
    with a show ?thesis
      by (auto simp: md_match_at_def split: list.splits if_splits)
  next
    case False
    with a have r: "rest = dropWhile is_letter s"
      by (simp add: md_match_at_def)
    have "length (takeWhile is_letter s) + length (dropWhile is_letter s) = length s"
      by (metis length_append takeWhile_dropWhile_id)
    with False r show ?thesis by (cases "takeWhile is_letter s") auto
  qed
qed

function MD_REGEX_findall :: "string \<Rightarrow> string list" where
  "MD_REGEX_findall [] = []"
| "MD_REGEX_findall (c # cs) =
     (case md_match_at (c # cs) of
        Some (tok, rest) \<Rightarrow> tok # MD_REGEX_findall rest
      | None \<Rightarrow> MD_REGEX_findall cs)"
  by pat_completeness auto
termination
  by (relation "measure length") (auto dest: md_match_at_shorter)

text \<open>The loop of \<open>md_mismatches\<close>; \<open>x[0]\<close> raises on an empty string.\<close>

fun md_loop :: "int \<Rightarrow> string list \<Rightarrow> error + int" where
  "md_loop p [] = Inr p"
| "md_loop p (x # xs) =
     (case x of
        [] \<Rightarrow> Inl IndexError
      | x0 # _ \<Rightarrow> if py_isalpha x0 then md_loop (p + int (length x)) xs else md_loop p xs)"

definition md_mismatches :: "string \<Rightarrow> error + int" where
  "md_mismatches md_tag = md_loop 0 (MD_REGEX_findall md_tag)"

text \<open>
  The lifetime of one instance: a sequence of calls of \<open>score_cigartuples\<close> on the same
  object, each starting from the state the previous one left.
\<close>

fun score_calls :: "scorer \<Rightarrow> (int \<times> int) list list \<Rightarrow> int list \<times> scorer" where
  "score_calls self [] = ([], self)"
| "score_calls self (ctups # rest) =
     (let (score, self') = score_cigartuples self ctups;
          (scores, self'') = score_calls self' rest
      in (score # scores, self''))"

subsection \<open>The operation kinds of the specification\<close>

text \<open>
  The ten kinds, with the BAM codes the comment above \<open>_cigar_score\<close> lists, and the
  contribution table as the specification words it.
\<close>

datatype kind = Match | Insertion | Deletion | RefSkip | SoftClip | HardClip | Pad
  | Equal | Diff | Back

fun kind_code :: "kind \<Rightarrow> int" where
  "kind_code Match = 0"
| "kind_code Insertion = 1"
| "kind_code Deletion = 2"
| "kind_code RefSkip = 3"
| "kind_code SoftClip = 4"
| "kind_code HardClip = 5"
| "kind_code Pad = 6"
| "kind_code Equal = 7"
| "kind_code Diff = 8"
| "kind_code Back = 9"

fun spec_contribution :: "kind \<Rightarrow> int \<Rightarrow> int" where
  "spec_contribution Match L = L"
| "spec_contribution Insertion L = - (6 + L)"
| "spec_contribution Deletion L = - (6 + L)"
| "spec_contribution RefSkip L = 0"
| "spec_contribution SoftClip L = 0"
| "spec_contribution HardClip L = 0"
| "spec_contribution Pad L = 0"
| "spec_contribution Equal L = L"
| "spec_contribution Diff L = - L"
| "spec_contribution Back L = 0"

text \<open>What one tuple adds to the score: the table's value, and nothing for a missing key.\<close>

definition contribution_or_zero :: "int \<times> int \<Rightarrow> int" where
  "contribution_or_zero c = (case cigar_score (fst c) of Some f \<Rightarrow> f (snd c) | None \<Rightarrow> 0)"

text \<open>
  The grammar of the specification: a token is one or more digits and an operator letter,
  and a well-formed string is a concatenation of tokens. A canonical token has a decimal
  length in ASCII digits without a leading zero (so its length is not zero either).
\<close>

definition cigar_token :: "pystr \<times> nat \<Rightarrow> bool" where
  "cigar_token tok = (fst tok \<noteq> [] \<and> list_all isdigit (fst tok) \<and> snd tok \<in> set CIGAR_OPS)"

definition ascii_digit :: "nat \<Rightarrow> bool" where
  "ascii_digit c = (48 \<le> c \<and> c \<le> 57)"

definition canonical_token :: "pystr \<times> nat \<Rightarrow> bool" where
  "canonical_token tok =
     (fst tok \<noteq> [] \<and> list_all ascii_digit (fst tok) \<and> hd (fst tok) \<noteq> 48
      \<and> snd tok \<in> set CIGAR_OPS)"

definition cigar_string_of :: "(pystr \<times> nat) list \<Rightarrow> pystr" where
  "cigar_string_of toks = concat (map (\<lambda>(ds, c). ds @ [c]) toks)"

definition short_digits :: "pystr \<times> nat \<Rightarrow> bool" where
  "short_digits tok = (length (fst tok) \<le> int_max_str_digits)"

text \<open>
  \<open>str(n)\<close> for an integer, which raises \<open>ValueError\<close> beyond the same number of digits,
  and the re-encoding: each length followed by its letter of \<open>MIDNSHP=XB\<close>.
\<close>

function str_nat :: "nat \<Rightarrow> pystr" where
  "str_nat n = (if n < 10 then [48 + n] else str_nat (n div 10) @ [48 + n mod 10])"
  by pat_completeness auto
termination
  by (relation "measure id") auto

declare str_nat.simps [simp del]

definition py_str :: "int \<Rightarrow> error + pystr" where
  "py_str i =
     (let s = str_nat (nat \<bar>i\<bar>) in
      if int_max_str_digits < length s then Inl ValueError
      else Inr (if i < 0 then 45 # s else s))"

fun reencode :: "(int \<times> int) list \<Rightarrow> error + pystr" where
  "reencode [] = Inr []"
| "reencode ((code, L) # ops) =
     (case py_str L of
        Inl e \<Rightarrow> Inl e
      | Inr s \<Rightarrow>
          if code < 0 \<or> int (length CIGAR_OPS) \<le> code then Inl IndexError
          else (case reencode ops of
                  Inl e \<Rightarrow> Inl e
                | Inr r \<Rightarrow> Inr (s @ CIGAR_OPS ! nat code # r)))"

text \<open>The letters of a string that do not directly follow a caret.\<close>

fun letters_not_after_caret :: "bool \<Rightarrow> string \<Rightarrow> nat" where
  "letters_not_after_caret after [] = 0"
| "letters_not_after_caret after (c # cs) =
     (if is_letter c \<and> \<not> after then 1 else 0) + letters_not_after_caret (c = CHR ''^'') cs"

section \<open>bacta: benchmark statistics (benchmark\_utils.py)\<close>

subsection \<open>Numbers\<close>

text \<open>
  A float of the data frame is a rational, an infinity or not-a-number. Sums, products
  and quotients are exact; rounding to 53 bits and the sign of zero are not modelled.
  Division follows the array library: no exception, \<open>0/0\<close> is not-a-number and \<open>x/0\<close> is
  an infinity.
\<close>

datatype fl = Fin rat | PInf | NInf | NaN

fun fneg :: "fl \<Rightarrow> fl" where
  "fneg (Fin a) = Fin (- a)"
| "fneg PInf = NInf"
| "fneg NInf = PInf"
| "fneg NaN = NaN"

fun fadd :: "fl \<Rightarrow> fl \<Rightarrow> fl" where
  "fadd NaN _ = NaN"
| "fadd _ NaN = NaN"
| "fadd (Fin a) (Fin b) = Fin (a + b)"
| "fadd PInf NInf = NaN"
| "fadd NInf PInf = NaN"
| "fadd PInf _ = PInf"
| "fadd _ PInf = PInf"
| "fadd NInf _ = NInf"
| "fadd _ NInf = NInf"

definition fsub :: "fl \<Rightarrow> fl \<Rightarrow> fl" where
  "fsub a b = fadd a (fneg b)"

fun fsign :: "fl \<Rightarrow> int" where
  "fsign (Fin a) = sgn (if a < 0 then - 1 else if a = 0 then 0 else 1)"
| "fsign PInf = 1"
| "fsign NInf = - 1"
| "fsign NaN = 0"

fun fmul :: "fl \<Rightarrow> fl \<Rightarrow> fl" where
  "fmul NaN _ = NaN"
| "fmul _ NaN = NaN"
| "fmul (Fin a) (Fin b) = Fin (a * b)"
| "fmul a b = (if fsign a * fsign b = 0 then NaN
               else if fsign a * fsign b < 0 then NInf else PInf)"

fun fdiv :: "fl \<Rightarrow> fl \<Rightarrow> fl" where
  "fdiv NaN _ = NaN"
| "fdiv _ NaN = NaN"
| "fdiv (Fin a) (Fin b) =
     (if b = 0 then (if a = 0 then NaN else if a < 0 then NInf else PInf) else Fin (a / b))"
| "fdiv (Fin a) _ = Fin 0"
| "fdiv a (Fin b) = (if fsign a * (if b < 0 then - 1 else 1) < 0 then NInf else PInf)"
| "fdiv _ _ = NaN"

text \<open>\<open>numpy.nan_to_num\<close>: not-a-number becomes 0, an infinity the largest double.\<close>

definition DBL_MAX :: rat where
  "DBL_MAX = of_nat ((2 ^ 53 - 1) * 2 ^ 971)"

fun nan_to_num :: "fl \<Rightarrow> fl" where
  "nan_to_num NaN = Fin 0"
| "nan_to_num PInf = Fin DBL_MAX"
| "nan_to_num NInf = Fin (- DBL_MAX)"
| "nan_to_num (Fin a) = Fin a"

definition fl_of_nat :: "nat \<Rightarrow> fl" where
  "fl_of_nat n = Fin (of_nat n)"

subsection \<open>The text table and what is read back from it\<close>

text \<open>
  \<open>write_table\<close> prints every count with \<open>{:.3g}\<close> and every threshold with \<open>{:g}\<close> (six
  significant digits) and parses the text again. \<open>round_sig p n\<close> is the number read back
  for \<open>n\<close> printed with \<open>p\<close> significant digits: ties go to the even digit, since an
  integer below \<open>2^53\<close> is converted to a float exactly. Counts and thresholds are taken
  in that range, as tallies of reads and alignment scores are: the inexact conversion
  of larger integers, and the \<open>OverflowError\<close> of the format call beyond the range of a
  float (about \<open>1.8e308\<close>), are not modelled.
\<close>

function ndigits :: "nat \<Rightarrow> nat" where
  "ndigits n = (if n < 10 then 1 else Suc (ndigits (n div 10)))"
  by pat_completeness auto
termination
  by (relation "measure id") auto

declare ndigits.simps [simp del]

definition round_sig :: "nat \<Rightarrow> nat \<Rightarrow> nat" where
  "round_sig p n =
     (let d = ndigits n in
      if d \<le> p then n
      else (let u = 10 ^ (d - p); q = n div u; r = n mod u in
            if 2 * r < u then q * u
            else if u < 2 * r then (q + 1) * u
            else if even q then q * u else (q + 1) * u))"

definition round_sig_int :: "nat \<Rightarrow> int \<Rightarrow> int" where
  "round_sig_int p t =
     (if t < 0 then - int (round_sig p (nat (- t))) else int (round_sig p (nat t)))"

subsection \<open>The input and the data frame\<close>

text \<open>
  \<open>counts\<close> is a dictionary from a threshold to the dictionary \<open>{REF: n, CONTAM: m}\<close> of
  two non-negative counts. It is an association list in insertion order, its keys
  distinct. The data frame is a record of its columns.
\<close>

record entry =
  REF :: nat
  CONTAM :: nat

type_synonym threshold_counts = "(int \<times> entry) list"

record dataframe =
  df_Threshold :: "int list"
  df_CONTAM :: "nat list"
  df_REF :: "nat list"
  df_TP :: "nat list"
  df_FP :: "nat list"
  df_Sensitivity :: "fl list"
  df_Fallout :: "fl list"
  df_Precision :: "fl list"
  df_F1 :: "fl list"
  df_F2 :: "fl list"

text \<open>The output handle: the tables written to it, and whether it was closed.\<close>

record handle =
  written :: "dataframe list"
  closed :: bool

text \<open>\<open>counts[t]\<close> for each \<open>t\<close> of a list of keys.\<close>

fun lookup_all :: "threshold_counts \<Rightarrow> int list \<Rightarrow> error + entry list" where
  "lookup_all counts [] = Inr []"
| "lookup_all counts (t # ts) =
     (case map_of counts t of
        None \<Rightarrow> Inl KeyError
      | Some e \<Rightarrow>
          (case lookup_all counts ts of
             Inl err \<Rightarrow> Inl err
           | Inr es \<Rightarrow> Inr (e # es)))"

text \<open>The two loops over a reversed column: the running total after each element.\<close>

fun cumulate :: "nat \<Rightarrow> nat list \<Rightarrow> nat list" where
  "cumulate t [] = []"
| "cumulate t (x # xs) = (t + x) # cumulate (t + x) xs"

text \<open>The statistics computed on the parsed columns, line by line.\<close>

definition table_stats :: "int list \<Rightarrow> nat list \<Rightarrow> nat list \<Rightarrow> dataframe" where
  "table_stats thresholds contam ref =
     (let total_ref = sum_list ref;
          total_contam = sum_list contam;
          cum_ref = rev (cumulate 0 (rev ref));
          cum_contam = rev (cumulate 0 (rev contam));
          sens = map (\<lambda>tp. fdiv (fl_of_nat tp) (fl_of_nat total_contam)) cum_contam;
          fallout = map (\<lambda>fp. fdiv (fl_of_nat fp) (fl_of_nat total_ref)) cum_ref;
          prec = map2 (\<lambda>tp fp. fdiv (fl_of_nat tp) (fl_of_nat (tp + fp))) cum_contam cum_ref;
          f1 = map2 (\<lambda>p s. fdiv (fmul (fmul (Fin 2) p) s) (fadd p s)) prec sens;
          f2 = map2 (\<lambda>p s. fdiv (fmul (fmul (Fin (1 + 2)) p) s) (fadd (fmul (Fin 2) p) s))
                    prec sens
      in \<lparr>df_Threshold = thresholds, df_CONTAM = contam, df_REF = ref,
          df_TP = cum_contam, df_FP = cum_ref, df_Sensitivity = sens,
          df_Fallout = fallout, df_Precision = prec, df_F1 = f1, df_F2 = f2\<rparr>)"

text \<open>
  \<open>write_table\<close>: unpacking the first key of an empty dictionary raises \<open>ValueError\<close>;
  the rows follow the sorted keys; the frame is written to the handle, which is closed.
\<close>

definition write_table :: "threshold_counts \<Rightarrow> handle \<Rightarrow> (error + dataframe) \<times> handle" where
  "write_table counts fh =
     (case map fst counts of
        [] \<Rightarrow> (Inl ValueError, fh)
      | k # _ \<Rightarrow>
          (let ts = sort (map fst counts) in
           case lookup_all counts ts of
             Inl err \<Rightarrow> (Inl err, fh)
           | Inr es \<Rightarrow>
               (let df = table_stats (map (round_sig_int 6) ts)
                                     (map (\<lambda>e. round_sig 3 (CONTAM e)) es)
                                     (map (\<lambda>e. round_sig 3 (REF e)) es)
                in (Inr df, fh\<lparr>written := written fh @ [df], closed := True\<rparr>))))"

text \<open>\<open>calculate_fbeta_score\<close> on Python floats: a zero divisor raises.\<close>

datatype arith_error = ZeroDivisionError

definition calculate_fbeta_score :: "rat \<Rightarrow> rat \<Rightarrow> rat \<Rightarrow> arith_error + rat" where
  "calculate_fbeta_score precision recall beta =
     (let beta = beta ^ 2 in
      if beta * precision + recall = 0 then Inl ZeroDivisionError
      else Inr ((1 + beta) * precision * recall / (beta * precision + recall)))"

text \<open>
  \<open>calculate_average_precision\<close>. Every row of a frame has a number in its \<open>Threshold\<close>
  column, so \<open>last_valid_index\<close> is the last row, and \<open>None\<close> for a frame without rows, where
  the lookup raises. \<open>numpy.diff\<close> gives the differences of neighbours; the built-in \<open>sum\<close>
  adds from the left, starting at 0. The logger is the list of the values it was given.
\<close>

definition last_valid_index :: "dataframe \<Rightarrow> nat option" where
  "last_valid_index df =
     (if df_Threshold df = [] then None else Some (length (df_Threshold df) - 1))"

definition np_diff :: "fl list \<Rightarrow> fl list" where
  "np_diff xs = map2 (\<lambda>a b. fsub b a) xs (tl xs)"

definition py_sum :: "fl list \<Rightarrow> fl" where
  "py_sum xs = foldl fadd (Fin 0) xs"

definition calculate_average_precision ::
  "dataframe \<Rightarrow> fl list \<Rightarrow> (error + fl) \<times> fl list" where
  "calculate_average_precision df logger =
     (case last_valid_index df of
        None \<Rightarrow> (Inl KeyError, logger)
      | Some i \<Rightarrow>
          (if length (df_Sensitivity df) \<le> i then (Inl KeyError, logger)
           else (let lowest_sens = df_Sensitivity df ! i;
                     sdiff = lowest_sens # np_diff (rev (df_Sensitivity df));
                     p_a = py_sum (map2 fmul (map nan_to_num (rev (df_Precision df))) sdiff)
                 in (Inr p_a, logger @ [p_a]))))"

text \<open>
  The average precision as the specification words it: the first difference is the
  sensitivity of the row with the lowest threshold.
\<close>

fun lowest_threshold_row :: "(int \<times> fl) list \<Rightarrow> (int \<times> fl) option" where
  "lowest_threshold_row [] = None"
| "lowest_threshold_row (r # rs) =
     (case lowest_threshold_row rs of
        None \<Rightarrow> Some r
      | Some m \<Rightarrow> if fst r \<le> fst m then Some r else Some m)"

definition spec_average_precision :: "dataframe \<Rightarrow> fl option" where
  "spec_average_precision df =
     (case lowest_threshold_row (zip (df_Threshold df) (df_Sensitivity df)) of
        None \<Rightarrow> None
      | Some (t, s1) \<Rightarrow>
          Some (py_sum (map2 fmul (map nan_to_num (rev (df_Precision df)))
                             (s1 # np_diff (rev (df_Sensitivity df))))))"

text \<open>One step of the sum, by position in the reversed table.\<close>

definition ap_term :: "fl list \<Rightarrow> fl list \<Rightarrow> nat \<Rightarrow> fl" where
  "ap_term s p i =
     fmul (nan_to_num (rev p ! i))
          (if i = 0 then last s else fsub (rev s ! i) (rev s ! (i - 1)))"

text \<open>The mapping \<open>{0: {REF: 10, CONTAM: 5}, 1: {REF: 2, CONTAM: 8}}\<close>.\<close>

definition example_counts :: threshold_counts where
  "example_counts = [(0, \<lparr>REF = 10, CONTAM = 5\<rparr>), (1, \<lparr>REF = 2, CONTAM = 8\<rparr>)]"

text \<open>The two shapes of a token of the MD tag: a run of letters, or a caret and one letter.\<close>

definition letter_run :: "string \<Rightarrow> bool" where
  "letter_run x = (x \<noteq> [] \<and> list_all is_letter x)"

definition caret_token :: "string \<Rightarrow> bool" where
  "caret_token x = (length x = 2 \<and> hd x = CHR ''^'' \<and> is_letter (x ! 1))"

text \<open>
  Auxiliary notions for the properties below: the table \<open>write_table\<close> returns for a
  non-empty dictionary; the sum of a count over the thresholds from \<open>T\<close> on; the sums of
  the suffixes of a column; and the terms of the average precision, each computed from
  a row and the sensitivity of the row before it.
\<close>

definition table_of :: "threshold_counts \<Rightarrow> dataframe" where
  "table_of counts =
     (let ts = sort (map fst counts); es = map (\<lambda>t. the (map_of counts t)) ts
      in table_stats (map (round_sig_int 6) ts)
                     (map (\<lambda>e. round_sig 3 (CONTAM e)) es)
                     (map (\<lambda>e. round_sig 3 (REF e)) es))"


fun suffix_sums :: "nat list \<Rightarrow> nat list" where
  "suffix_sums [] = []"
| "suffix_sums (x # xs) = (x + sum_list xs) # suffix_sums xs"

fun ap_rec :: "fl \<Rightarrow> (fl \<times> fl) list \<Rightarrow> fl list" where
  "ap_rec prev [] = []"
| "ap_rec prev ((s, p) # rest) = fmul (nan_to_num p) (fsub s prev) # ap_rec s rest"

text \<open>The average precision of the rows \<open>(sensitivity, precision)\<close> of a table.\<close>

definition ap_rows :: "(fl \<times> fl) list \<Rightarrow> fl" where
  "ap_rows rows = py_sum (ap_rec (Fin 0) (rev rows))"

text \<open>The sensitivity and the precision of a row, from its cumulative counts.\<close>

definition row_of :: "nat \<Rightarrow> nat \<times> nat \<Rightarrow> fl \<times> fl" where
  "row_of total_contam r =
     (fdiv (fl_of_nat (fst r)) (fl_of_nat total_contam),
      fdiv (fl_of_nat (fst r)) (fl_of_nat (fst r + snd r)))"

definition table_rows :: "nat list \<Rightarrow> nat list \<Rightarrow> (fl \<times> fl) list" where
  "table_rows contam ref = map (row_of (sum_list contam)) (zip (suffix_sums contam) (suffix_sums ref))"

text \<open>The entry of a threshold at which no read was counted.\<close>

definition no_reads :: entry where
  "no_reads = \<lparr>REF = 0, CONTAM = 0\<rparr>"

section \<open>Properties\<close>

subsection \<open>Scoring\<close>

lemma cigar_score_kind:
  "cigar_score (kind_code k) = Some (spec_contribution k)"
  by (cases k) (auto simp: cigar_score_def fun_eq_iff)

lemma score_loop_kinds:
  "score_loop self s (map (\<lambda>(k, L). (kind_code k, L)) ops)
     = (s + (\<Sum>(k, L)\<leftarrow>ops. spec_contribution k L), self)"
  by (induction ops arbitrary: s) (auto simp: cigar_score_kind)

lemma cigar_score_None: "cigar_score c = None \<longleftrightarrow> c < 0 \<or> 9 < c"
  by (simp add: cigar_score_def) arith

lemma count_list_distinct:
  "distinct xs \<Longrightarrow> count_list xs x = (if x \<in> set xs then 1 else 0)"
  by (induction xs) auto

lemma score_2I3M:
  "score_cigarstring init_scorer (codepoints ''2I3M'') = (Inr (- 5), init_scorer)"
  by (simp add: codepoints_def score_cigarstring_def cigarstring_to_tuples_def
        cigar_match_at_def isdigit_def DECIMAL_STARTS_def CIGAR_OPS_def CIGAR2CODE_def
        py_int_def int_max_str_digits_def digits_value_def digit_value_def
        score_cigartuples_def cigar_score_def)

text \<open>
  C6. For every sequence of operations of the ten kinds, the score is the sum of the
  contributions of the specification's table (\<open>+L\<close> for Match and Equal, \<open>-(6+L)\<close> for
  Insertion and Deletion, \<open>-L\<close> for Diff, 0 for the other five), and the instance is left
  as it was; the score of \<open>2I3M\<close> is \<open>-5\<close>.
\<close>

theorem score_sums_contributions:
  "score_cigartuples self (map (\<lambda>(k, L). (kind_code k, L)) ops)
     = (\<Sum>(k, L)\<leftarrow>ops. spec_contribution k L, self)
   \<and> fst (score_cigarstring init_scorer (codepoints ''2I3M'')) = Inr (- (6 + 2) + 3)"
  by (simp add: score_cigartuples_def score_loop_kinds score_2I3M)

theorem score_sums_contributions_witness:
  "score_cigartuples init_scorer [(1, 2), (0, 3), (8, 4), (4, 7)] = (- 9, init_scorer)"
  using score_sums_contributions [of init_scorer "[(Insertion, 2), (Match, 3), (Diff, 4), (SoftClip, 7)]"]
  by simp

lemma score_loop_inv:
  assumes "score_loop self s ctups = (s', self')"
    and "set (warned_log self) = cig_warned self" and "distinct (warned_log self)"
  shows "s' = s + sum_list (map contribution_or_zero ctups)
       \<and> set (warned_log self') = cig_warned self' \<and> distinct (warned_log self')
       \<and> cig_warned self' = cig_warned self \<union> {c \<in> fst ` set ctups. cigar_score c = None}"
  using assms
proof (induction ctups arbitrary: self s)
  case Nil
  then show ?case by auto
next
  case (Cons c ctups)
  show ?case
  proof (cases "cigar_score (fst c)")
    case (Some f)
    with Cons.prems have "score_loop self (s + f (snd c)) ctups = (s', self')" by simp
    from Cons.IH[OF this Cons.prems(2,3)] Some show ?thesis
      by (auto simp: contribution_or_zero_def)
  next
    case None
    show ?thesis
    proof (cases "fst c \<in> cig_warned self")
      case True
      with None Cons.prems have "score_loop self s ctups = (s', self')" by simp
      from Cons.IH[OF this Cons.prems(2,3)] None True show ?thesis
        by (auto simp: contribution_or_zero_def)
    next
      case False
      let ?self = "self\<lparr>warned_log := warned_log self @ [fst c],
                       cig_warned := insert (fst c) (cig_warned self)\<rparr>"
      from None False Cons.prems have "score_loop ?self s ctups = (s', self')" by simp
      moreover have "set (warned_log ?self) = cig_warned ?self"
        using Cons.prems(2) by auto
      moreover have "distinct (warned_log ?self)"
        using Cons.prems(2,3) False by auto
      ultimately show ?thesis using Cons.IH[of ?self s] None False
        by (auto simp: contribution_or_zero_def)
    qed
  qed
qed

lemma score_calls_inv:
  assumes "score_calls self calls = (scores, self')"
    and "set (warned_log self) = cig_warned self" and "distinct (warned_log self)"
  shows "scores = map (\<lambda>ctups. sum_list (map contribution_or_zero ctups)) calls
       \<and> set (warned_log self') = cig_warned self' \<and> distinct (warned_log self')
       \<and> cig_warned self' = cig_warned self \<union> {c \<in> fst ` set (concat calls). cigar_score c = None}"
  using assms
proof (induction calls arbitrary: self scores)
  case Nil
  then show ?case by auto
next
  case (Cons ctups rest)
  obtain sc self1 where 1: "score_loop self 0 ctups = (sc, self1)" by force
  obtain scs self2 where 2: "score_calls self1 rest = (scs, self2)" by force
  from Cons.prems(1) 1 2 have eq: "scores = sc # scs" "self' = self2"
    by (auto simp: score_cigartuples_def)
  note a = score_loop_inv[OF 1 Cons.prems(2,3)]
  from a have b: "set (warned_log self1) = cig_warned self1" "distinct (warned_log self1)" by auto
  from 2 eq have 3: "score_calls self1 rest = (scs, self')" by simp
  note c = Cons.IH[OF 3 b]
  show ?case using a c eq by auto
qed

text \<open>
  C7. A tuple whose code is not one of \<open>0..9\<close> never raises and adds 0 to the score of
  its call. Over the calls made on one fresh instance, the warning for a code is logged
  exactly once if the code is unknown and occurs in some call, however often, and never
  otherwise.
\<close>

theorem score_unknown_kinds:
  "fst (score_calls init_scorer calls)
     = map (\<lambda>ctups. \<Sum>c\<leftarrow>ctups. if fst c < 0 \<or> 9 < fst c then 0 else contribution_or_zero c) calls
   \<and> count_list (warned_log (snd (score_calls init_scorer calls))) code
     = (if (code < 0 \<or> 9 < code) \<and> code \<in> fst ` set (concat calls) then 1 else 0)"
proof -
  obtain scores self' where a: "score_calls init_scorer calls = (scores, self')" by force
  have "set (warned_log init_scorer) = cig_warned init_scorer" "distinct (warned_log init_scorer)"
    by (simp_all add: init_scorer_def)
  note inv = score_calls_inv[OF a this]
  have z: "\<And>c. (if fst c < 0 \<or> 9 < fst c then 0 else contribution_or_zero c) = contribution_or_zero c"
    by (auto simp: contribution_or_zero_def cigar_score_None[symmetric])
  have "count_list (warned_log self') code = (if code \<in> set (warned_log self') then 1 else 0)"
    using inv by (simp add: count_list_distinct)
  then show ?thesis using inv a by (auto simp: z init_scorer_def cigar_score_None)
qed

theorem score_unknown_kinds_witness:
  "fst (score_calls init_scorer [[(11, 5), (0, 3), (11, 2)], [(11, 1), (- 1, 4)]]) = [3, 0]
   \<and> count_list (warned_log (snd (score_calls init_scorer
        [[(11, 5), (0, 3), (11, 2)], [(11, 1), (- 1, 4)]]))) 11 = 1"
  using score_unknown_kinds [of "[[(11, 5), (0, 3), (11, 2)], [(11, 1), (- 1, 4)]]" 11]
  by (simp add: contribution_or_zero_def cigar_score_def)

subsection \<open>The table\<close>

lemma example_table:
  "fst (write_table example_counts fh) =
     Inr \<lparr>df_Threshold = [0, 1], df_CONTAM = [5, 8], df_REF = [10, 2],
          df_TP = [13, 8], df_FP = [12, 2],
          df_Sensitivity = [Fin 1, Fin (8 / 13)],
          df_Fallout = [Fin 1, Fin (1 / 6)],
          df_Precision = [Fin (13 / 25), Fin (4 / 5)],
          df_F1 = [Fin (13 / 19), Fin (16 / 23)],
          df_F2 = [Fin (13 / 17), Fin (2 / 3)]\<rparr>"
  by code_simp

text \<open>
  C10. For the empty mapping \<open>write_table\<close> raises (\<open>ValueError\<close>, from unpacking the first
  key for the header): no table is returned, and nothing is written to the handle.
\<close>

theorem write_table_empty:
  "write_table [] fh = (Inl ValueError, fh)"
  by (simp add: write_table_def)

text \<open>
  C2. On the mapping \<open>{0: {REF: 10, CONTAM: 5}, 1: {REF: 2, CONTAM: 8}}\<close> the row of
  threshold 1 has precision \<open>4/5\<close> and sensitivity \<open>8/13\<close>; its F2 column holds
  \<open>3 P S / (2 P + S) = 2/3\<close>, while \<open>calculate_fbeta_score\<close> at \<open>beta = 2\<close> gives
  \<open>5 P S / (4 P + S) = 20/31\<close>.
\<close>

theorem F2_column_differs_from_fbeta:
  "map_sum id (\<lambda>df. (df_Precision df ! 1, df_Sensitivity df ! 1, df_F2 df ! 1))
      (fst (write_table example_counts fh)) = Inr (Fin (4 / 5), Fin (8 / 13), Fin (2 / 3))
   \<and> calculate_fbeta_score (4 / 5) (8 / 13) 2 = Inr (20 / 31)
   \<and> (5 * (4 / 5) * (8 / 13) / (4 * (4 / 5) + 8 / 13) :: rat) = 20 / 31"
  by (simp add: example_table calculate_fbeta_score_def)

subsection \<open>Decoding\<close>

lemma CIGAR_OPS_list: "CIGAR_OPS = [77, 73, 68, 78, 83, 72, 80, 61, 88, 66]"
  by (simp add: CIGAR_OPS_def codepoints_def)

lemmas decode_eval =
  codepoints_def cigarstring_to_tuples_def cigar_match_at_def isdigit_def DECIMAL_STARTS_def
  CIGAR_OPS_list CIGAR2CODE_def py_int_def int_max_str_digits_def digits_value_def
  digit_value_def

lemma op_not_digit: "c \<in> set CIGAR_OPS \<Longrightarrow> \<not> isdigit c"
proof -
  have "\<forall>c \<in> set [77, 73, 68, 78, 83, 72, 80, 61, 88, 66]. \<not> isdigit c"
    by (simp add: isdigit_def DECIMAL_STARTS_def)
  then show "c \<in> set CIGAR_OPS \<Longrightarrow> \<not> isdigit c"
    unfolding CIGAR_OPS_list by blast
qed

lemma CIGAR2CODE_ops:
  "c \<in> set CIGAR_OPS \<Longrightarrow>
     \<exists>code. CIGAR2CODE c = Some code \<and> 0 \<le> code \<and> code < int (length CIGAR_OPS)
            \<and> CIGAR_OPS ! nat code = c"
  by (auto simp: CIGAR2CODE_def CIGAR_OPS_def codepoints_def)

lemma ascii_digit_value: "ascii_digit c \<Longrightarrow> isdigit c \<and> digit_value c = c - 48"
  by (simp add: ascii_digit_def isdigit_def digit_value_def DECIMAL_STARTS_def)

lemma findall_nonempty:
  "s \<noteq> [] \<Longrightarrow> CIGAR_REGEX_findall s =
     (case cigar_match_at s of
        Some (tok, rest) \<Rightarrow> tok # CIGAR_REGEX_findall rest
      | None \<Rightarrow> CIGAR_REGEX_findall (tl s))"
  by (cases s) (auto split: option.splits)

lemma cigar_match_at_token:
  assumes "cigar_token (ds, c)"
  shows "cigar_match_at (ds @ c # rest) = Some ((ds, c), rest)"
proof -
  from assms have d: "\<And>x. x \<in> set ds \<Longrightarrow> isdigit x" and n: "ds \<noteq> []" and c: "c \<in> set CIGAR_OPS"
    by (auto simp: cigar_token_def list_all_iff)
  from c have nc: "\<not> isdigit c" by (rule op_not_digit)
  from d nc have "takeWhile isdigit (ds @ c # rest) = ds" "dropWhile isdigit (ds @ c # rest) = c # rest"
    by simp_all
  with n c show ?thesis by (simp add: cigar_match_at_def)
qed

lemma cigar_match_at_gives_token:
  assumes "cigar_match_at s = Some (tok, rest)"
  shows "cigar_token tok"
proof -
  from assms obtain c where t: "tok = (takeWhile isdigit s, c)" "takeWhile isdigit s \<noteq> []"
      "c \<in> set CIGAR_OPS"
    by (auto simp: cigar_match_at_def Let_def split: if_splits list.splits)
  have "list_all isdigit (takeWhile isdigit s)"
    by (auto simp: list_all_iff dest: set_takeWhileD)
  with t show ?thesis by (simp add: cigar_token_def)
qed

lemma findall_gives_tokens: "list_all cigar_token (CIGAR_REGEX_findall s)"
proof (induction s rule: CIGAR_REGEX_findall.induct)
  case 1
  show ?case by simp
next
  case (2 c cs)
  show ?case
  proof (cases "cigar_match_at (c # cs)")
    case None
    with 2(1) show ?thesis by simp
  next
    case (Some m)
    obtain tok rest where m: "m = (tok, rest)" by (cases m)
    from Some m have "cigar_token tok" by (auto dest: cigar_match_at_gives_token)
    with 2(2)[OF Some m[symmetric]] Some m show ?thesis by simp
  qed
qed

lemma findall_tokens:
  "list_all cigar_token toks \<Longrightarrow>
     CIGAR_REGEX_findall (cigar_string_of toks @ rest) = toks @ CIGAR_REGEX_findall rest"
proof (induction toks)
  case Nil
  show ?case by (simp add: cigar_string_of_def)
next
  case (Cons tok toks)
  obtain ds c where tok: "tok = (ds, c)" by (cases tok)
  from Cons.prems tok have t: "cigar_token (ds, c)" and ts: "list_all cigar_token toks" by simp_all
  have s: "cigar_string_of (tok # toks) @ rest = ds @ c # (cigar_string_of toks @ rest)"
    by (simp add: cigar_string_of_def tok)
  have "ds @ c # (cigar_string_of toks @ rest) \<noteq> []" by simp
  from findall_nonempty[OF this] cigar_match_at_token[OF t]
  have "CIGAR_REGEX_findall (ds @ c # (cigar_string_of toks @ rest))
          = (ds, c) # CIGAR_REGEX_findall (cigar_string_of toks @ rest)" by simp
  with s Cons.IH[OF ts] tok show ?case by simp
qed

text \<open>
  On tokens the comprehension never misses a key: it returns one operation per token,
  unless \<open>int\<close> refuses the digits of one of them.
\<close>

lemma tuples_of_tokens:
  "list_all cigar_token ps \<Longrightarrow> list_all short_digits ps \<Longrightarrow>
     \<exists>ops. tuples_of_parts ps = Inr ops \<and> map snd ops = map (digits_value \<circ> fst) ps
           \<and> map (\<lambda>(code, L). CIGAR_OPS ! nat code) ops = map snd ps"
proof (induction ps)
  case Nil
  show ?case by simp
next
  case (Cons p ps)
  obtain x y where p: "p = (x, y)" by (cases p)
  from Cons.prems p have "y \<in> set CIGAR_OPS" by (simp add: cigar_token_def)
  then obtain code where c: "CIGAR2CODE y = Some code" "CIGAR_OPS ! nat code = y"
    using CIGAR2CODE_ops by blast
  from Cons.prems(2) p have i: "py_int x = Inr (digits_value x)"
    by (simp add: short_digits_def py_int_def)
  from Cons obtain ops where o: "tuples_of_parts ps = Inr ops"
      "map snd ops = map (digits_value \<circ> fst) ps"
      "map (\<lambda>(code, L). CIGAR_OPS ! nat code) ops = map snd ps"
    by auto
  show ?case using p c i o by simp
qed

lemma tuples_of_long_token:
  "list_all cigar_token ps \<Longrightarrow> \<not> list_all short_digits ps \<Longrightarrow>
     tuples_of_parts ps = Inl ValueError"
proof (induction ps)
  case Nil
  then show ?case by simp
next
  case (Cons p ps)
  obtain x y where p: "p = (x, y)" by (cases p)
  from Cons.prems p have "y \<in> set CIGAR_OPS" by (simp add: cigar_token_def)
  then obtain code where c: "CIGAR2CODE y = Some code"
    using CIGAR2CODE_ops by blast
  from Cons.prems(1) have ts: "list_all cigar_token ps" by simp
  show ?case
  proof (cases "short_digits p")
    case False
    with p have "py_int x = Inl ValueError" by (simp add: short_digits_def py_int_def)
    with p c show ?thesis by simp
  next
    case True
    with p have i: "py_int x = Inr (digits_value x)" by (simp add: short_digits_def py_int_def)
    from True Cons.prems(2) have "\<not> list_all short_digits ps" by simp
    from Cons.IH[OF ts this] p c i show ?thesis by simp
  qed
qed

text \<open>A character that is neither a digit nor an operator letter belongs to no match.\<close>

lemma cigar_match_at_junk:
  assumes "\<not> isdigit j" "j \<notin> set CIGAR_OPS"
  shows "cigar_match_at (a @ j # b) =
           (case cigar_match_at a of
              Some (tok, rest) \<Rightarrow> Some (tok, rest @ j # b)
            | None \<Rightarrow> None)"
proof (cases "\<forall>x\<in>set a. isdigit x")
  case True
  then have tw: "takeWhile isdigit (a @ j # b) = a" and dw: "dropWhile isdigit (a @ j # b) = j # b"
    and dn: "dropWhile isdigit a = []"
    using assms by simp_all
  have 1: "cigar_match_at a = None"
    unfolding cigar_match_at_def Let_def dn by simp
  have 2: "cigar_match_at (a @ j # b) = None"
    unfolding cigar_match_at_def Let_def tw dw using assms by simp
  show ?thesis by (simp add: 1 2)
next
  case False
  then obtain x where x: "x \<in> set a" "\<not> isdigit x" by blast
  then have tw: "takeWhile isdigit (a @ j # b) = takeWhile isdigit a"
    and dw: "dropWhile isdigit (a @ j # b) = dropWhile isdigit a @ j # b"
    by simp_all
  from False have "dropWhile isdigit a \<noteq> []" by simp
  then obtain c rest where d: "dropWhile isdigit a = c # rest"
    by (cases "dropWhile isdigit a") auto
  show ?thesis
    unfolding cigar_match_at_def Let_def tw dw d by simp
qed

lemma findall_junk:
  assumes "\<not> isdigit j" "j \<notin> set CIGAR_OPS"
  shows "CIGAR_REGEX_findall (a @ j # b) = CIGAR_REGEX_findall a @ CIGAR_REGEX_findall b"
proof (induction a rule: CIGAR_REGEX_findall.induct)
  case 1
  from assms have "cigar_match_at (j # b) = None"
    by (simp add: cigar_match_at_def)
  then show ?case by simp
next
  case (2 c cs)
  note m = cigar_match_at_junk[OF assms, of "c # cs" b]
  show ?case
  proof (cases "cigar_match_at (c # cs)")
    case None
    with m 2(1)[OF None] show ?thesis by simp
  next
    case (Some p)
    obtain tok rest where p: "p = (tok, rest)" by (cases p)
    from 2(2)[OF Some p[symmetric]] m Some p show ?thesis by simp
  qed
qed

lemma example_not_wellformed:
  "\<not> (\<exists>toks. list_all cigar_token toks \<and> codepoints ''3M?'' = cigar_string_of toks)"
proof
  assume "\<exists>toks. list_all cigar_token toks \<and> codepoints ''3M?'' = cigar_string_of toks"
  then obtain toks where t: "list_all cigar_token toks"
    "codepoints ''3M?'' = cigar_string_of toks" by blast
  have "\<forall>ch \<in> set (cigar_string_of toks). isdigit ch \<or> ch \<in> set CIGAR_OPS"
    using t(1) by (auto simp: cigar_string_of_def cigar_token_def list_all_iff)
  moreover have "63 \<in> set (codepoints ''3M?'')" by (simp add: codepoints_def)
  ultimately have "isdigit 63 \<or> 63 \<in> set CIGAR_OPS" using t(2) by simp
  then show False by (simp add: isdigit_def DECIMAL_STARTS_def CIGAR_OPS_list)
qed

text \<open>
  C1 as stated fails: \<open>3M?\<close> does not decompose into tokens, and its decode is no error
  but the operation found before the stray character.
\<close>

theorem decode_malformed_counterexample:
  "\<not> (\<exists>toks. list_all cigar_token toks \<and> codepoints ''3M?'' = cigar_string_of toks)
   \<and> cigarstring_to_tuples (codepoints ''3M?'') = Inr [(0, 3)]"
proof -
  have "cigarstring_to_tuples (codepoints ''3M?'') = Inr [(0, 3)]"
    by (simp add: decode_eval)
  with example_not_wellformed show ?thesis by simp
qed

text \<open>
  C1, amended. \<open>cigarstring_to_tuples\<close> has no format error and does not reject a string
  that fails to decompose into tokens: it decodes the tokens that the scan from left to
  right finds, one operation per token with the token's length and letter, and skips
  what lies between them - a character that is neither a digit nor an operator letter
  splits the scan, so that the tokens of \<open>a j b\<close> are those of \<open>a\<close> followed by those of
  \<open>b\<close>. A string that does decompose gives exactly its tokens. The only error is the
  \<open>ValueError\<close> of \<open>int\<close>, raised exactly when a token found has more than 4300 digits.
\<close>

theorem decode_tokens_found:
  "(list_all short_digits (CIGAR_REGEX_findall s) \<longrightarrow>
      (\<exists>ops. cigarstring_to_tuples s = Inr ops
          \<and> map snd ops = map (digits_value \<circ> fst) (CIGAR_REGEX_findall s)
          \<and> map (\<lambda>(code, L). CIGAR_OPS ! nat code) ops = map snd (CIGAR_REGEX_findall s)))
   \<and> (\<not> list_all short_digits (CIGAR_REGEX_findall s) \<longrightarrow>
        cigarstring_to_tuples s = Inl ValueError)
   \<and> (\<not> isdigit j \<and> j \<notin> set CIGAR_OPS \<longrightarrow>
        CIGAR_REGEX_findall (a @ j # b) = CIGAR_REGEX_findall a @ CIGAR_REGEX_findall b)
   \<and> (list_all cigar_token toks \<longrightarrow> CIGAR_REGEX_findall (cigar_string_of toks) = toks)"
proof -
  note t = findall_gives_tokens[of s]
  have 1: "\<exists>ops. cigarstring_to_tuples s = Inr ops
          \<and> map snd ops = map (digits_value \<circ> fst) (CIGAR_REGEX_findall s)
          \<and> map (\<lambda>(code, L). CIGAR_OPS ! nat code) ops = map snd (CIGAR_REGEX_findall s)"
    if "list_all short_digits (CIGAR_REGEX_findall s)"
    using tuples_of_tokens[OF t that] by (simp add: cigarstring_to_tuples_def)
  have 2: "cigarstring_to_tuples s = Inl ValueError"
    if "\<not> list_all short_digits (CIGAR_REGEX_findall s)"
    using tuples_of_long_token[OF t that] by (simp add: cigarstring_to_tuples_def)
  have 3: "CIGAR_REGEX_findall (a @ j # b) = CIGAR_REGEX_findall a @ CIGAR_REGEX_findall b"
    if "\<not> isdigit j \<and> j \<notin> set CIGAR_OPS"
    using that by (simp add: findall_junk)
  have 4: "CIGAR_REGEX_findall (cigar_string_of toks) = toks" if "list_all cigar_token toks"
    using findall_tokens[OF that, of "[]"] by simp
  from 1 2 3 4 show ?thesis by blast
qed


lemma long_token:
  "cigar_token (replicate 4301 49, 77) \<and> canonical_token (replicate 4301 49, 77)
   \<and> \<not> short_digits (replicate 4301 49, 77)
   \<and> cigar_string_of [(replicate 4301 49, 77)] = replicate 4301 49 @ [77]"
proof -
  have "ascii_digit 49" by (simp add: ascii_digit_def)
  then have "list_all ascii_digit (replicate 4301 49)" "list_all isdigit (replicate 4301 49)"
    using ascii_digit_value[of 49] by (simp_all add: list_all_iff)
  moreover have "hd (replicate 4301 (49 :: nat)) \<noteq> 48" "replicate 4301 (49 :: nat) \<noteq> []"
    by simp_all
  moreover have "77 \<in> set CIGAR_OPS" by (simp add: CIGAR_OPS_list)
  ultimately show ?thesis
    by (simp add: cigar_token_def canonical_token_def short_digits_def int_max_str_digits_def
          cigar_string_of_def)
qed

theorem decode_tokens_found_witness:
  "CIGAR_REGEX_findall (codepoints ''3M?2I'') = [([51], 77), ([50], 73)]
   \<and> cigarstring_to_tuples (codepoints ''3M?2I'') = Inr [(0, 3), (1, 2)]
   \<and> CIGAR_REGEX_findall (replicate 4301 49 @ [77]) = [(replicate 4301 49, 77)]
   \<and> cigarstring_to_tuples (replicate 4301 49 @ [77]) = Inl ValueError"
proof -
  let ?s = "codepoints ''3M?2I''" and ?l = "replicate 4301 49 @ [77 :: nat]"
  have j: "\<not> isdigit 63 \<and> 63 \<notin> set CIGAR_OPS"
    by (simp add: isdigit_def DECIMAL_STARTS_def CIGAR_OPS_list)
  have s: "?s = codepoints ''3M'' @ 63 # codepoints ''2I''" by (simp add: codepoints_def)
  have a: "CIGAR_REGEX_findall (codepoints ''3M'') = [([51], 77)]"
    "CIGAR_REGEX_findall (codepoints ''2I'') = [([50], 73)]"
    by (simp_all add: decode_eval)
  note A = decode_tokens_found [of ?s 63 "codepoints ''3M''" "codepoints ''2I''" "[]"]
  from A j s a have f: "CIGAR_REGEX_findall ?s = [([51], 77), ([50], 73)]" by simp
  then have "list_all short_digits (CIGAR_REGEX_findall ?s)"
    by (simp add: short_digits_def int_max_str_digits_def)
  with A f have "\<exists>ops. cigarstring_to_tuples ?s = Inr ops
      \<and> map snd ops = map (digits_value \<circ> fst) [([51], 77), ([50], 73)]
      \<and> map (\<lambda>(code, L). CIGAR_OPS ! nat code) ops = map snd [([51], 77), ([50], 73 :: nat)]"
    by simp
  moreover have "cigarstring_to_tuples ?s = Inr [(0, 3), (1, 2)]" by (simp add: decode_eval)
  ultimately have d: "cigarstring_to_tuples ?s = Inr [(0, 3), (1, 2)]" by simp
  note B = decode_tokens_found [of ?l 63 "[]" "[]" "[(replicate 4301 49, 77)]"]
  from B long_token have g: "CIGAR_REGEX_findall ?l = [(replicate 4301 49, 77)]" by simp
  with B long_token have "cigarstring_to_tuples ?l = Inl ValueError" by simp
  with f d g show ?thesis by simp
qed

subsection \<open>Round trip\<close>

lemma canonical_is_token: "canonical_token tok \<Longrightarrow> cigar_token tok"
  using ascii_digit_value by (auto simp: canonical_token_def cigar_token_def list_all_iff)

lemma digits_value_snoc:
  "digits_value (ds @ [d]) = 10 * digits_value ds + int (digit_value d)"
  by (simp add: digits_value_def)

lemma str_nat_small: "n < 10 \<Longrightarrow> str_nat n = [48 + n]"
  by (subst str_nat.simps) simp

lemma str_nat_large: "10 \<le> n \<Longrightarrow> str_nat n = str_nat (n div 10) @ [48 + n mod 10]"
  by (subst str_nat.simps) simp

lemma str_digits_value:
  "ds \<noteq> [] \<Longrightarrow> list_all ascii_digit ds \<Longrightarrow> hd ds \<noteq> 48 \<Longrightarrow>
     1 \<le> digits_value ds \<and> str_nat (nat (digits_value ds)) = ds"
proof (induction ds rule: rev_nonempty_induct)
  case (single d)
  then have d: "ascii_digit d" "d \<noteq> 48" by simp_all
  from ascii_digit_value[OF d(1)] have v: "digit_value d = d - 48" by simp
  define w where "w = d - 48"
  from d have r: "1 \<le> w" "w < 10" "48 + w = d"
    by (auto simp: ascii_digit_def w_def)
  have e: "digits_value [d] = int w" by (simp add: digits_value_def v w_def)
  then have "nat (digits_value [d]) = w" by simp
  with r have "str_nat (nat (digits_value [d])) = [d]" by (simp add: str_nat_small)
  moreover from e r have "1 \<le> digits_value [d]" by linarith
  ultimately show ?case by simp
next
  case (snoc d ds)
  from snoc.prems snoc.hyps have p: "list_all ascii_digit ds" "hd ds \<noteq> 48" "ascii_digit d"
    by simp_all
  from snoc.IH[OF p(1,2)] have ih: "1 \<le> digits_value ds" "str_nat (nat (digits_value ds)) = ds"
    by simp_all
  define n where "n = nat (digits_value ds)"
  define v where "v = d - 48"
  from p(3) have v: "v < 10" "48 + v = d" by (auto simp: v_def ascii_digit_def)
  from ascii_digit_value[OF p(3)] have dv: "digit_value d = v" by (simp add: v_def)
  from ih have n: "1 \<le> n" "int n = digits_value ds" by (auto simp: n_def)
  have e: "digits_value (ds @ [d]) = int (10 * n + v)" using n dv by (simp add: digits_value_snoc)
  then have "nat (digits_value (ds @ [d])) = 10 * n + v" by simp
  moreover have "10 \<le> 10 * n + v" using n by simp
  moreover have "(10 * n + v) div 10 = n" "(10 * n + v) mod 10 = v" using v by simp_all
  ultimately have "str_nat (nat (digits_value (ds @ [d]))) = str_nat n @ [48 + v]"
    by (simp add: str_nat_large)
  with ih(2) v have "str_nat (nat (digits_value (ds @ [d]))) = ds @ [d]"
    by (simp add: n_def)
  moreover from e n have "1 \<le> digits_value (ds @ [d])" by linarith
  ultimately show ?case by simp
qed

lemma reencode_tokens:
  "list_all canonical_token toks \<Longrightarrow> list_all short_digits toks \<Longrightarrow>
     tuples_of_parts toks = Inr ops \<Longrightarrow> reencode ops = Inr (cigar_string_of toks)"
proof (induction toks arbitrary: ops)
  case Nil
  then show ?case by (simp add: cigar_string_of_def)
next
  case (Cons tok toks)
  obtain ds c where tok: "tok = (ds, c)" by (cases tok)
  from Cons.prems(1) tok have ct: "canonical_token (ds, c)"
    and ts: "list_all canonical_token toks" by simp_all
  from Cons.prems(2) tok have sd: "short_digits (ds, c)"
    and shs: "list_all short_digits toks" by simp_all
  from sd have sh: "length ds \<le> int_max_str_digits" by (simp add: short_digits_def)
  from ct have t: "ds \<noteq> []" "list_all ascii_digit ds" "hd ds \<noteq> 48" "c \<in> set CIGAR_OPS"
    by (simp_all add: canonical_token_def)
  from t(4) obtain code where c: "CIGAR2CODE c = Some code" "0 \<le> code"
      "code < int (length CIGAR_OPS)" "CIGAR_OPS ! nat code = c"
    using CIGAR2CODE_ops by blast
  from sh have i: "py_int ds = Inr (digits_value ds)" by (simp add: py_int_def)
  from Cons.prems(3) tok c i obtain r where r: "tuples_of_parts toks = Inr r"
      "ops = (code, digits_value ds) # r"
    by (auto split: sum.splits)
  from str_digits_value[OF t(1,2,3)] sh have "py_str (digits_value ds) = Inr ds"
    by (simp add: py_str_def)
  with Cons.IH[OF ts shs r(1)] r(2) c tok show ?case
    by (simp add: cigar_string_of_def)
qed

text \<open>
  C8 as stated fails: a token of 4301 digits without a leading zero is canonical, and
  decoding it raises the \<open>ValueError\<close> of \<open>int\<close>, so nothing is re-encoded. And where
  a decimal length is read as widely as the regular expression reads it, the token of
  the Arabic-Indic digit three (code point 1635) and \<open>M\<close> decodes to \<open>(0, 3)\<close>, which is
  re-encoded in ASCII as \<open>3M\<close>.
\<close>

theorem decode_reencode_counterexample:
  "list_all canonical_token [(replicate 4301 49, 77)]
   \<and> cigarstring_to_tuples (cigar_string_of [(replicate 4301 49, 77)]) = Inl ValueError
   \<and> cigar_token ([1635], 77)
   \<and> cigarstring_to_tuples (cigar_string_of [([1635], 77)]) = Inr [(0, 3)]
   \<and> reencode [(0, 3)] = Inr [51, 77]
   \<and> cigar_string_of [([1635], 77)] = [1635, 77]"
proof -
  from long_token have t: "list_all cigar_token [(replicate 4301 49, 77)]"
    and n: "\<not> list_all short_digits [(replicate 4301 49, 77)]" by simp_all
  from findall_tokens[OF t, of "[]"] tuples_of_long_token[OF t n]
  have 1: "cigarstring_to_tuples (cigar_string_of [(replicate 4301 49, 77)]) = Inl ValueError"
    by (simp add: cigarstring_to_tuples_def)
  have 2: "cigar_token ([1635], 77)"
    by (simp add: cigar_token_def isdigit_def DECIMAL_STARTS_def CIGAR_OPS_list)
  have 3: "cigar_string_of [([1635], 77)] = [1635, 77]"
    by (simp add: cigar_string_of_def)
  have 4: "cigarstring_to_tuples [1635, 77] = Inr [(0, 3)]"
    by (simp add: decode_eval)
  have 5: "reencode [(0, 3)] = Inr [51, 77]"
    by (simp add: py_str_def str_nat_small int_max_str_digits_def CIGAR_OPS_list)
  from long_token 1 2 3 4 5 show ?thesis by simp
qed

text \<open>
  C8, amended. For every string that is a concatenation of canonical tokens (ASCII
  digits without a leading zero, then an operator letter) with at most 4300 digits
  each, decoding and then re-encoding each operation as its length followed by its
  letter gives the string back.
\<close>

theorem decode_reencode_roundtrip:
  "list_all canonical_token toks \<and> list_all short_digits toks \<longrightarrow>
     (case cigarstring_to_tuples (cigar_string_of toks) of
        Inl e \<Rightarrow> Inl e
      | Inr ops \<Rightarrow> reencode ops) = Inr (cigar_string_of toks)"
proof
  assume a: "list_all canonical_token toks \<and> list_all short_digits toks"
  then have c: "list_all canonical_token toks" and sh: "list_all short_digits toks" by simp_all
  from c have t: "list_all cigar_token toks"
    by (simp add: list_all_iff canonical_is_token)
  from findall_tokens[OF t, of "[]"] have f: "CIGAR_REGEX_findall (cigar_string_of toks) = toks"
    by simp
  from tuples_of_tokens[OF t sh] obtain ops where o: "tuples_of_parts toks = Inr ops" by blast
  from reencode_tokens[OF c sh o] o f
  show "(case cigarstring_to_tuples (cigar_string_of toks) of
        Inl e \<Rightarrow> Inl e
      | Inr ops \<Rightarrow> reencode ops) = Inr (cigar_string_of toks)"
    by (simp add: cigarstring_to_tuples_def)
qed

theorem decode_reencode_roundtrip_witness:
  "list_all canonical_token [(codepoints ''10'', 83), (codepoints ''120'', 77), (codepoints ''3'', 61)]
   \<and> list_all short_digits [(codepoints ''10'', 83), (codepoints ''120'', 77), (codepoints ''3'', 61)]
   \<and> cigarstring_to_tuples (codepoints ''10S120M3='') = Inr [(4, 10), (0, 120), (7, 3)]
   \<and> reencode [(4, 10), (0, 120), (7, 3)] = Inr (codepoints ''10S120M3='')"
proof -
  let ?toks = "[(codepoints ''10'', 83), (codepoints ''120'', 77), (codepoints ''3'', 61 :: nat)]"
  have 1: "list_all canonical_token ?toks"
    by (simp add: canonical_token_def ascii_digit_def codepoints_def CIGAR_OPS_list)
  have 2: "list_all short_digits ?toks"
    by (simp add: short_digits_def int_max_str_digits_def codepoints_def)
  have 3: "cigar_string_of ?toks = codepoints ''10S120M3=''"
    by (simp add: cigar_string_of_def codepoints_def)
  have 4: "cigarstring_to_tuples (codepoints ''10S120M3='') = Inr [(4, 10), (0, 120), (7, 3)]"
    by (simp add: decode_eval)
  from decode_reencode_roundtrip [of ?toks] 1 2 3 4
  have "reencode [(4, 10), (0, 120), (7, 3)] = Inr (codepoints ''10S120M3='')" by simp
  with 1 2 4 show ?thesis by simp
qed

subsection \<open>The MD tag\<close>

lemma letter_isalpha: "is_letter c \<Longrightarrow> py_isalpha c"
  by (auto simp: is_letter_def py_isalpha_def Let_def)

lemma caret_not_alpha: "\<not> py_isalpha (CHR ''^'')" "\<not> is_letter (CHR ''^'')"
  by (simp_all add: py_isalpha_def is_letter_def)

lemma md_match_at_cases:
  assumes "md_match_at s = Some (tok, rest)"
  shows "(letter_run tok \<and> tok = takeWhile is_letter s \<and> rest = dropWhile is_letter s)
       \<or> (caret_token tok \<and> s = tok @ rest)"
proof (cases "takeWhile is_letter s = []")
  case False
  with assms have "tok = takeWhile is_letter s" "rest = dropWhile is_letter s"
    by (simp_all add: md_match_at_def)
  moreover have "list_all is_letter (takeWhile is_letter s)"
    by (auto simp: list_all_iff dest: set_takeWhileD)
  ultimately show ?thesis using False by (simp add: letter_run_def)
next
  case True
  with assms show ?thesis
    by (auto simp: md_match_at_def caret_token_def split: list.splits if_splits)
qed

lemma md_tokens_shape:
  "list_all (\<lambda>x. letter_run x \<or> caret_token x) (MD_REGEX_findall s)"
proof (induction s rule: MD_REGEX_findall.induct)
  case 1
  show ?case by simp
next
  case (2 c cs)
  show ?case
  proof (cases "md_match_at (c # cs)")
    case None
    with 2(1) show ?thesis by simp
  next
    case (Some m)
    obtain tok rest where m: "m = (tok, rest)" by (cases m)
    from md_match_at_cases[OF Some[unfolded m]] have "letter_run tok \<or> caret_token tok" by blast
    with 2(2)[OF Some m[symmetric]] Some m show ?thesis by simp
  qed
qed

lemma md_loop_shape:
  "list_all (\<lambda>x. letter_run x \<or> caret_token x) xs \<Longrightarrow>
     md_loop p xs = Inr (p + (\<Sum>x\<leftarrow>xs. if letter_run x then int (length x) else 0))"
proof (induction xs arbitrary: p)
  case Nil
  show ?case by simp
next
  case (Cons x xs)
  from Cons.prems have sh: "letter_run x \<or> caret_token x"
    and rest: "list_all (\<lambda>x. letter_run x \<or> caret_token x) xs" by simp_all
  from sh show ?case
  proof
    assume l: "letter_run x"
    then obtain x0 xr where x: "x = x0 # xr" "is_letter x0"
      by (cases x) (auto simp: letter_run_def)
    with l Cons.IH[OF rest] letter_isalpha[OF x(2)] show ?thesis by simp
  next
    assume c: "caret_token x"
    then obtain xr where x: "x = CHR ''^'' # xr"
      by (cases x) (auto simp: caret_token_def)
    from c have "\<not> letter_run x"
      using caret_not_alpha by (auto simp: x letter_run_def)
    with x Cons.IH[OF rest] caret_not_alpha show ?thesis by simp
  qed
qed

lemma lnac_letters:
  "list_all is_letter run \<Longrightarrow> run \<noteq> [] \<Longrightarrow>
     letters_not_after_caret False (run @ rest)
       = length run + letters_not_after_caret False rest"
proof (induction run)
  case Nil
  then show ?case by simp
next
  case (Cons c run)
  then have c: "is_letter c" "c \<noteq> CHR ''^''" using caret_not_alpha by auto
  show ?case
  proof (cases "run = []")
    case True
    with c show ?thesis by simp
  next
    case False
    with Cons c show ?thesis by simp
  qed
qed

lemma lnac_after_nonletter:
  "s = [] \<or> \<not> is_letter (hd s) \<Longrightarrow>
     letters_not_after_caret a s = letters_not_after_caret False s"
  by (cases s) auto

lemma md_count_letters:
  "md_loop p (MD_REGEX_findall s) = Inr (p + int (letters_not_after_caret False s))"
proof (induction s arbitrary: p rule: MD_REGEX_findall.induct)
  case 1
  show ?case by simp
next
  case (2 c cs)
  show ?case
  proof (cases "md_match_at (c # cs)")
    case None
    then have nl: "\<not> is_letter c"
      by (auto simp: md_match_at_def split: if_splits)
    from None have "c \<noteq> CHR ''^'' \<or> cs = [] \<or> \<not> is_letter (hd cs)"
      by (cases cs) (auto simp: md_match_at_def split: if_splits)
    then have "letters_not_after_caret (c = CHR ''^'') cs = letters_not_after_caret False cs"
      by (cases "c = CHR ''^''") (auto intro: lnac_after_nonletter)
    with None nl 2(1)[OF None] show ?thesis by simp
  next
    case (Some m)
    obtain tok rest where m: "m = (tok, rest)" by (cases m)
    note ih = 2(2)[OF Some m[symmetric]]
    from md_match_at_cases[OF Some[unfolded m]] show ?thesis
    proof
      assume a: "letter_run tok \<and> tok = takeWhile is_letter (c # cs) \<and> rest = dropWhile is_letter (c # cs)"
      then have lr: "letter_run tok" and tk: "tok = takeWhile is_letter (c # cs)"
        and rs: "rest = dropWhile is_letter (c # cs)" by blast+
      have s: "c # cs = tok @ rest" by (simp only: tk rs takeWhile_dropWhile_id)
      from lr obtain x0 xr where x: "tok = x0 # xr" "is_letter x0"
        by (cases tok) (auto simp: letter_run_def)
      from lr have "letters_not_after_caret False (tok @ rest)
          = length tok + letters_not_after_caret False rest"
        by (intro lnac_letters) (simp_all add: letter_run_def)
      with s have "letters_not_after_caret False (c # cs)
          = length tok + letters_not_after_caret False rest" by simp
      moreover have "md_loop p (MD_REGEX_findall (c # cs))
          = md_loop (p + int (length tok)) (MD_REGEX_findall rest)"
        using Some m x letter_isalpha[OF x(2)] by simp
      ultimately show ?thesis using ih[of "p + int (length tok)"] by simp
    next
      assume a: "caret_token tok \<and> c # cs = tok @ rest"
      then obtain l where t: "tok = [CHR ''^'', l]" "is_letter l"
        by (cases tok; cases "tl tok") (auto simp: caret_token_def)
      with a have s: "c = CHR ''^''" "cs = l # rest" by simp_all
      from t(2) have "l \<noteq> CHR ''^''" using caret_not_alpha by auto
      with s t have "letters_not_after_caret False (c # cs) = letters_not_after_caret False rest"
        using caret_not_alpha by simp
      moreover have "md_loop p (MD_REGEX_findall (c # cs)) = md_loop p (MD_REGEX_findall rest)"
        using Some m t caret_not_alpha by simp
      ultimately show ?thesis using ih[of p] by simp
    qed
  qed
qed


text \<open>
  C5. The tokens \<open>md_mismatches\<close> scans are runs of letters or a caret with one letter;
  the count is the sum of the lengths of the letter runs, so a caret token adds nothing
  and digits are never counted: it is the number of letters of the tag that do not
  directly follow a caret. On \<open>10A5^AC3\<close> the count is 2.
\<close>

theorem md_mismatches_counts_letter_runs:
  "list_all (\<lambda>x. letter_run x \<or> caret_token x) (MD_REGEX_findall s)
   \<and> md_mismatches s
       = Inr (\<Sum>x\<leftarrow>MD_REGEX_findall s. if py_isalpha (hd x) then int (length x) else 0)
   \<and> md_mismatches s = Inr (int (letters_not_after_caret False s))
   \<and> md_mismatches ''10A5^AC3'' = Inr 2"
proof -
  note sh = md_tokens_shape[of s]
  have "\<And>x. letter_run x \<or> caret_token x \<Longrightarrow> py_isalpha (hd x) = letter_run x"
  proof -
    fix x :: string
    assume "letter_run x \<or> caret_token x"
    then show "py_isalpha (hd x) = letter_run x"
    proof
      assume l: "letter_run x"
      then have "is_letter (hd x)" by (cases x) (auto simp: letter_run_def)
      with l show ?thesis by (simp add: letter_isalpha)
    next
      assume c: "caret_token x"
      then have h: "hd x = CHR ''^''" "x \<noteq> []" by (auto simp: caret_token_def)
      then have "\<not> letter_run x"
        using caret_not_alpha by (cases x) (auto simp: letter_run_def)
      with h caret_not_alpha show ?thesis by simp
    qed
  qed
  with sh have "map (\<lambda>x. if py_isalpha (hd x) then int (length x) else 0) (MD_REGEX_findall s)
      = map (\<lambda>x. if letter_run x then int (length x) else 0) (MD_REGEX_findall s)"
    by (intro map_cong refl) (auto simp: list_all_iff)
  then have eq: "(\<Sum>x\<leftarrow>MD_REGEX_findall s. if py_isalpha (hd x) then int (length x) else 0)
      = (\<Sum>x\<leftarrow>MD_REGEX_findall s. if letter_run x then int (length x) else 0)"
    by (rule arg_cong)
  have 1: "md_mismatches s
       = Inr (\<Sum>x\<leftarrow>MD_REGEX_findall s. if py_isalpha (hd x) then int (length x) else 0)"
    unfolding md_mismatches_def md_loop_shape[OF sh] eq by simp
  have 2: "md_mismatches s = Inr (int (letters_not_after_caret False s))"
    using md_count_letters[of 0 s] by (simp add: md_mismatches_def)
  have 3: "md_mismatches ''10A5^AC3'' = Inr 2" by code_simp
  from sh 1 2 3 show ?thesis by simp
qed

theorem md_mismatches_counts_letter_runs_witness:
  "MD_REGEX_findall ''10A5^AC3'' = [''A'', ''^A'', ''C'']
   \<and> md_mismatches ''10A5^AC3'' = Inr 2
   \<and> letters_not_after_caret False ''10A5^AC3'' = 2"
proof -
  have a: "MD_REGEX_findall ''10A5^AC3'' = [''A'', ''^A'', ''C'']" by code_simp
  have b: "letters_not_after_caret False ''10A5^AC3'' = 2" by code_simp
  from md_mismatches_counts_letter_runs [of "''10A5^AC3''"]
  have c: "md_mismatches ''10A5^AC3'' = Inr 2" by (elim conjE)
  from a b c show ?thesis by (intro conjI)
qed

subsection \<open>Average precision\<close>

lemma np_diff_length: "length (np_diff xs) = length xs - 1"
  by (simp add: np_diff_def)

lemma np_diff_nth:
  "Suc j < length xs \<Longrightarrow> np_diff xs ! j = fsub (xs ! Suc j) (xs ! j)"
  by (simp add: np_diff_def nth_tl)

lemma ap_terms_by_position:
  assumes "s \<noteq> []" "length p = length s"
  shows "map2 fmul (map nan_to_num (rev p)) (last s # np_diff (rev s))
           = map (ap_term s p) [0..<length s]"
proof (rule nth_equalityI)
  show "length (map2 fmul (map nan_to_num (rev p)) (last s # np_diff (rev s)))
          = length (map (ap_term s p) [0..<length s])"
    using assms by (cases s) (simp_all add: np_diff_length)
next
  fix i
  assume "i < length (map2 fmul (map nan_to_num (rev p)) (last s # np_diff (rev s)))"
  with assms have i: "i < length s" by (simp add: np_diff_length)
  have "(last s # np_diff (rev s)) ! i
          = (if i = 0 then last s else fsub (rev s ! i) (rev s ! (i - 1)))"
  proof (cases i)
    case 0
    then show ?thesis by simp
  next
    case (Suc j)
    with i have "Suc j < length (rev s)" by simp
    from np_diff_nth[OF this] Suc show ?thesis by simp
  qed
  with i assms show "map2 fmul (map nan_to_num (rev p)) (last s # np_diff (rev s)) ! i
          = map (ap_term s p) [0..<length s] ! i"
    by (simp add: ap_term_def np_diff_length)
qed

lemma example_average_precision:
  "map_sum id (\<lambda>df. (fst (calculate_average_precision df []), spec_average_precision df))
      (fst (write_table example_counts \<lparr>written = [], closed = False\<rparr>))
     = Inr (Inr (Fin (9 / 13)), Some (Fin 1))"
  unfolding example_table
  by (simp add: calculate_average_precision_def last_valid_index_def spec_average_precision_def
        np_diff_def py_sum_def fsub_def Let_def)

subsection \<open>The rows of the table\<close>

lemma lookup_all_keys:
  "set ts \<subseteq> fst ` set counts \<Longrightarrow>
     lookup_all counts ts = Inr (map (\<lambda>t. the (map_of counts t)) ts)"
proof (induction ts)
  case Nil
  show ?case by simp
next
  case (Cons t ts)
  then have "t \<in> fst ` set counts" by simp
  then obtain e where "map_of counts t = Some e"
    by (metis domD dom_map_of_conv_image_fst)
  with Cons show ?case by simp
qed

lemma write_table_nonempty:
  "counts \<noteq> [] \<Longrightarrow>
     write_table counts fh
       = (Inr (table_of counts), fh\<lparr>written := written fh @ [table_of counts], closed := True\<rparr>)"
proof -
  assume n: "counts \<noteq> []"
  have "lookup_all counts (sort (map fst counts))
          = Inr (map (\<lambda>t. the (map_of counts t)) (sort (map fst counts)))"
    by (rule lookup_all_keys) simp
  with n show ?thesis
    by (cases counts) (simp_all add: write_table_def table_of_def Let_def)
qed

lemma write_table_Inr:
  "write_table counts fh = (Inr df, fh') \<Longrightarrow> counts \<noteq> [] \<and> df = table_of counts"
proof (cases "counts = []")
  case True
  assume "write_table counts fh = (Inr df, fh')"
  with True show ?thesis by (simp add: write_table_def)
next
  case False
  assume "write_table counts fh = (Inr df, fh')"
  with False write_table_nonempty[OF False, of fh] show ?thesis by simp
qed

lemma cumulate_snoc: "cumulate t (xs @ [x]) = cumulate t xs @ [t + sum_list xs + x]"
  by (induction xs arbitrary: t) (simp_all add: add.assoc)

lemma rev_cumulate: "rev (cumulate 0 (rev xs)) = suffix_sums xs"
  by (induction xs) (simp_all add: cumulate_snoc add.commute)

lemma length_suffix_sums: "length (suffix_sums xs) = length xs"
  by (induction xs) simp_all


lemma table_stats_columns:
  "df_TP (table_stats th c r) = suffix_sums c"
  "df_FP (table_stats th c r) = suffix_sums r"
  "df_Threshold (table_stats th c r) = th"
  "df_Sensitivity (table_stats th c r)
     = map (\<lambda>tp. fdiv (fl_of_nat tp) (fl_of_nat (sum_list c))) (suffix_sums c)"
  "df_Precision (table_stats th c r)
     = map2 (\<lambda>tp fp. fdiv (fl_of_nat tp) (fl_of_nat (tp + fp))) (suffix_sums c) (suffix_sums r)"
  by (simp_all add: table_stats_def Let_def rev_cumulate)




lemma ndigits_small: "n < 1000 \<Longrightarrow> ndigits n \<le> 3"
proof -
  assume n: "n < 1000"
  have a: "\<And>m. m < 10 \<Longrightarrow> ndigits m = 1" by (subst ndigits.simps) simp
  have b: "\<And>m. m < 100 \<Longrightarrow> ndigits m \<le> 2"
    by (subst ndigits.simps) (auto simp: a)
  from n have "n div 10 < 100" by simp
  from b[OF this] show ?thesis by (subst ndigits.simps) simp
qed

lemma round_sig_small: "n < 1000 \<Longrightarrow> round_sig 3 n = n"
  by (simp add: round_sig_def ndigits_small)

lemma table_of_lengths:
  "length (df_Threshold (table_of counts)) = length counts"
  "length (df_TP (table_of counts)) = length counts"
  "length (df_FP (table_of counts)) = length counts"
  "length (df_Sensitivity (table_of counts)) = length counts"
  "length (df_Precision (table_of counts)) = length counts"
  by (simp_all add: table_of_def Let_def table_stats_columns length_suffix_sums)




text \<open>
  C4 as stated fails. On the table of \<open>{0: {REF: 10, CONTAM: 5}, 1: {REF: 2, CONTAM: 8}}\<close>
  the code returns \<open>4/5 * 8/13 + 13/25 * 5/13 = 9/13\<close>: the first difference is the
  sensitivity \<open>8/13\<close> of the last row, the one of the highest threshold. Seeding with the
  sensitivity 1 of the row of the lowest threshold gives 1.
\<close>

theorem average_precision_seed_counterexample:
  "map_sum id (\<lambda>df. (fst (calculate_average_precision df []), spec_average_precision df))
      (fst (write_table example_counts \<lparr>written = [], closed = False\<rparr>))
     = Inr (Inr (Fin (9 / 13)), Some (Fin 1))
   \<and> Fin (9 / 13) \<noteq> Fin 1"
  using example_average_precision by simp

text \<open>
  C4, amended. On a table with at least one row, \<open>calculate_average_precision\<close> returns
  the sum, over the rows in reversed (last row first) order, of precision times
  \<open>Delta\<close>, with not-a-number precision replaced by 0 in this sum only; \<open>Delta_1\<close> is the
  sensitivity of the table's last row and \<open>Delta_i = s_i - s_(i-1)\<close> for \<open>i > 1\<close> in that
  reversed order. In a table from \<open>write_table\<close> the rows are in ascending order of
  threshold, so the last row is that of the highest threshold.
\<close>

theorem average_precision_sum:
  "(df_Threshold df \<noteq> []
      \<and> length (df_Sensitivity df) = length (df_Threshold df)
      \<and> length (df_Precision df) = length (df_Threshold df) \<longrightarrow>
      fst (calculate_average_precision df logger)
        = Inr (py_sum (map (ap_term (df_Sensitivity df) (df_Precision df))
                           [0..<length (df_Threshold df)])))
   \<and> (write_table counts fh = (Inr df', fh') \<longrightarrow>
        df_Threshold df' = map (round_sig_int 6) (sort (map fst counts))
      \<and> df_Threshold df' \<noteq> []
      \<and> length (df_Sensitivity df') = length (df_Threshold df')
      \<and> length (df_Precision df') = length (df_Threshold df'))"
proof -
  have A: "fst (calculate_average_precision df logger)
        = Inr (py_sum (map (ap_term (df_Sensitivity df) (df_Precision df))
                           [0..<length (df_Threshold df)]))"
    if a: "df_Threshold df \<noteq> []
      \<and> length (df_Sensitivity df) = length (df_Threshold df)
      \<and> length (df_Precision df) = length (df_Threshold df)"
  proof -
  from a have s: "df_Sensitivity df \<noteq> []" "length (df_Precision df) = length (df_Sensitivity df)"
    by auto
  from a have l: "last_valid_index df = Some (length (df_Threshold df) - 1)"
    by (simp add: last_valid_index_def)
  from a s have ls: "df_Sensitivity df ! (length (df_Threshold df) - Suc 0) = last (df_Sensitivity df)"
    by (simp add: last_conv_nth)
  from a have lt: "\<not> length (df_Sensitivity df) \<le> length (df_Threshold df) - 1"
    by (cases "df_Threshold df") simp_all
  show ?thesis
    using ap_terms_by_position[OF s] a lt
    by (simp add: calculate_average_precision_def l ls Let_def)
  qed
  have B: "df_Threshold df' = map (round_sig_int 6) (sort (map fst counts))
      \<and> df_Threshold df' \<noteq> []
      \<and> length (df_Sensitivity df') = length (df_Threshold df')
      \<and> length (df_Precision df') = length (df_Threshold df')"
    if w: "write_table counts fh = (Inr df', fh')"
  proof -
  from write_table_Inr[OF w] have ne: "counts \<noteq> []" and df: "df' = table_of counts" by simp_all
  have "df_Threshold (table_of counts) = map (round_sig_int 6) (sort (map fst counts))"
    by (simp add: table_of_def Let_def table_stats_columns)
  moreover from ne have "df_Threshold (table_of counts) \<noteq> []"
    using table_of_lengths(1)[of counts] by (metis length_0_conv)
  ultimately show ?thesis
    using df by (simp add: table_of_lengths)
  qed
  from A B show ?thesis by blast
qed


theorem average_precision_sum_witness:
  "df_Threshold (table_of example_counts) = [0, 1]
   \<and> df_Sensitivity (table_of example_counts) = [Fin 1, Fin (8 / 13)]
   \<and> df_Precision (table_of example_counts) = [Fin (13 / 25), Fin (4 / 5)]
   \<and> fst (calculate_average_precision (table_of example_counts) []) = Inr (Fin (9 / 13))
   \<and> fst (write_table example_counts \<lparr>written = [], closed = False\<rparr>)
       = Inr (table_of example_counts)"
proof -
  have ne: "example_counts \<noteq> []" by (simp add: example_counts_def)
  have w: "fst (write_table example_counts \<lparr>written = [], closed = False\<rparr>)
       = Inr (table_of example_counts)"
    by (simp add: write_table_nonempty[OF ne])
  with example_table[of "\<lparr>written = [], closed = False\<rparr>"]
  have T: "table_of example_counts =
     \<lparr>df_Threshold = [0, 1], df_CONTAM = [5, 8], df_REF = [10, 2],
          df_TP = [13, 8], df_FP = [12, 2],
          df_Sensitivity = [Fin 1, Fin (8 / 13)],
          df_Fallout = [Fin 1, Fin (1 / 6)],
          df_Precision = [Fin (13 / 25), Fin (4 / 5)],
          df_F1 = [Fin (13 / 19), Fin (16 / 23)],
          df_F2 = [Fin (13 / 17), Fin (2 / 3)]\<rparr>" by simp
  have u: "[0..<2] = [0, Suc 0]" by (simp add: upt_rec)
  have "py_sum (map (ap_term [Fin 1, Fin (8 / 13)] [Fin (13 / 25), Fin (4 / 5)]) [0, Suc 0])
          = Fin (9 / 13)"
    by (simp add: py_sum_def ap_term_def fsub_def)
  with average_precision_sum [of "table_of example_counts" "[]"] u
  have "fst (calculate_average_precision (table_of example_counts) []) = Inr (Fin (9 / 13))"
    by (simp add: T)
  with w T show ?thesis by simp
qed

subsection \<open>Average precision and rows without reads\<close>

lemma fsub_zero: "fsub s (Fin 0) = s"
  by (cases s) (simp_all add: fsub_def)

lemma fadd_zero: "fadd x (Fin 0) = x"
  by (cases x) simp_all

lemma fadd_NaN: "fadd NaN x = NaN" "fadd x NaN = NaN"
  by (cases x; simp)+

lemma nan_to_num_Fin: "\<exists>q. nan_to_num p = Fin q"
  by (cases p) simp_all

lemma np_diff_Cons2: "np_diff (a # b # xs) = fsub b a # np_diff (b # xs)"
  by (simp add: np_diff_def)

lemma ap_rec_np_diff:
  "length ps = length xs \<Longrightarrow>
     map2 fmul (map nan_to_num ps) (np_diff (prev # xs)) = ap_rec prev (zip xs ps)"
proof (induction xs arbitrary: prev ps)
  case Nil
  then show ?case by (simp add: np_diff_def)
next
  case (Cons x xs)
  then obtain p ps' where ps: "ps = p # ps'" "length ps' = length xs"
    by (cases ps) auto
  from Cons.IH[OF ps(2), of x] ps show ?case
    by (simp add: np_diff_Cons2)
qed

lemma seed_np_diff: "xs \<noteq> [] \<Longrightarrow> hd xs # np_diff xs = np_diff (Fin 0 # xs)"
  by (cases xs) (simp_all add: np_diff_Cons2 fsub_zero)

lemma calculate_average_precision_rows:
  assumes "df_Threshold df \<noteq> []"
    and "length (df_Sensitivity df) = length (df_Threshold df)"
    and "length (df_Precision df) = length (df_Threshold df)"
  shows "fst (calculate_average_precision df logger)
           = Inr (ap_rows (zip (df_Sensitivity df) (df_Precision df)))"
proof -
  let ?S = "df_Sensitivity df" and ?P = "df_Precision df"
  from assms have s: "?S \<noteq> []" "length ?P = length ?S" by auto
  from assms have l: "last_valid_index df = Some (length (df_Threshold df) - 1)"
    by (simp add: last_valid_index_def)
  from assms s have ls: "?S ! (length (df_Threshold df) - Suc 0) = last ?S"
    by (simp add: last_conv_nth)
  from assms have lt: "\<not> length ?S \<le> length (df_Threshold df) - 1"
    by (cases "df_Threshold df") simp_all
  have "last ?S # np_diff (rev ?S) = np_diff (Fin 0 # rev ?S)"
    using seed_np_diff[of "rev ?S"] s by (simp add: hd_rev)
  then have "map2 fmul (map nan_to_num (rev ?P)) (last ?S # np_diff (rev ?S))
               = ap_rec (Fin 0) (zip (rev ?S) (rev ?P))"
    using ap_rec_np_diff[of "rev ?P" "rev ?S" "Fin 0"] s by simp
  also have "zip (rev ?S) (rev ?P) = rev (zip ?S ?P)"
    using s by (simp add: zip_rev)
  finally show ?thesis
    using lt by (simp add: calculate_average_precision_def l ls Let_def ap_rows_def)
qed

lemma ap_rec_append:
  "ap_rec prev (us @ vs)
     = ap_rec prev us @ ap_rec (if us = [] then prev else fst (last us)) vs"
proof (induction us arbitrary: prev)
  case Nil
  show ?case by simp
next
  case (Cons u us)
  obtain s p where u: "u = (s, p)" by (cases u)
  show ?case using Cons.IH[of s] u by (cases "us = []") simp_all
qed

lemma foldl_fadd_NaN: "foldl fadd NaN xs = NaN"
  by (induction xs) (simp_all add: fadd_NaN)

lemma ap_rows_NaN:
  assumes "rows \<noteq> []" "fst (last rows) = NaN"
  shows "ap_rows rows = NaN"
proof -
  from assms obtain p rest where r: "rev rows = (NaN, p) # rest"
    by (cases rows rule: rev_cases) (auto simp: prod_eq_iff)
  obtain q where q: "nan_to_num p = Fin q" using nan_to_num_Fin by blast
  have "fmul (nan_to_num p) (fsub NaN (Fin 0)) = NaN"
    by (simp add: q fsub_def)
  then show ?thesis
    by (simp add: ap_rows_def py_sum_def r fadd_NaN foldl_fadd_NaN)
qed

lemma ap_rows_insert:
  assumes "(if zb = [] then Fin 0 else fst (hd zb)) = Fin a"
  shows "ap_rows (za @ (Fin a, p) # zb) = ap_rows (za @ zb)"
proof -
  let ?us = "rev zb" and ?vs = "rev za"
  from assms have prev: "(if ?us = [] then Fin 0 else fst (last ?us)) = Fin a"
    by (cases "zb = []") (simp_all add: last_rev)
  obtain q where q: "nan_to_num p = Fin q" using nan_to_num_Fin by blast
  have t: "fmul (nan_to_num p) (fsub (Fin a) (Fin a)) = Fin 0"
    by (simp add: q fsub_def)
  have "ap_rec (Fin 0) (rev (za @ (Fin a, p) # zb))
          = ap_rec (Fin 0) ?us @ Fin 0 # ap_rec (Fin a) ?vs"
    using ap_rec_append[of "Fin 0" ?us "(Fin a, p) # ?vs"] prev t by simp
  moreover have "ap_rec (Fin 0) (rev (za @ zb)) = ap_rec (Fin 0) ?us @ ap_rec (Fin a) ?vs"
    using ap_rec_append[of "Fin 0" ?us ?vs] prev by simp
  ultimately show ?thesis
    by (simp add: ap_rows_def py_sum_def fadd_zero)
qed

lemma suffix_sums_append:
  "suffix_sums (xs @ w) = map (\<lambda>s. s + sum_list w) (suffix_sums xs) @ suffix_sums w"
  by (induction xs) simp_all

lemma hd_suffix_sums: "xs \<noteq> [] \<Longrightarrow> hd (suffix_sums xs) = sum_list xs"
  by (cases xs) simp_all

lemma suffix_sums_zero: "sum_list c = 0 \<Longrightarrow> x \<in> set (suffix_sums c) \<Longrightarrow> x = 0"
  by (induction c) auto

lemma zip_map_map2:
  "zip (map f A) (map2 g A B) = map (\<lambda>(a, b). (f a, g a b)) (zip A B)"
proof (induction A arbitrary: B)
  case Nil
  show ?case by simp
next
  case (Cons a A)
  then show ?case by (cases B) simp_all
qed

lemma table_stats_rows:
  "zip (df_Sensitivity (table_stats th c r)) (df_Precision (table_stats th c r))
     = table_rows c r"
proof -
  have "(\<lambda>(a, b). (fdiv (fl_of_nat a) (fl_of_nat (sum_list c)),
                     fdiv (fl_of_nat a) (fl_of_nat (a + b)))) = row_of (sum_list c)"
    by (auto simp: row_of_def fun_eq_iff)
  then show ?thesis
    by (simp add: table_stats_columns table_rows_def zip_map_map2)
qed

lemma table_rows_zero_row:
  assumes "length cx = length rx" "length cy = length ry" "cx @ cy \<noteq> []"
  shows "ap_rows (table_rows (cx @ 0 # cy) (rx @ 0 # ry)) = ap_rows (table_rows (cx @ cy) (rx @ ry))"
proof -
  define T where "T = sum_list (cx @ cy)"
  define \<sigma> where "\<sigma> = sum_list cy"
  define \<rho> where "\<rho> = sum_list ry"
  define A where "A = map (\<lambda>s. s + \<sigma>) (suffix_sums cx)"
  define A2 where "A2 = map (\<lambda>s. s + \<rho>) (suffix_sums rx)"
  define za where "za = map (row_of T) (zip A A2)"
  define zb where "zb = map (row_of T) (zip (suffix_sums cy) (suffix_sums ry))"
  have lA: "length A = length A2"
    using assms(1) by (simp add: A_def A2_def length_suffix_sums)
  have lB: "length (suffix_sums cy) = length (suffix_sums ry)"
    using assms(2) by (simp add: length_suffix_sums)
  have T': "sum_list (cx @ 0 # cy) = T" by (simp add: T_def)
  have s1: "suffix_sums (cx @ 0 # cy) = A @ \<sigma> # suffix_sums cy"
    and s2: "suffix_sums (rx @ 0 # ry) = A2 @ \<rho> # suffix_sums ry"
    and s3: "suffix_sums (cx @ cy) = A @ suffix_sums cy"
    and s4: "suffix_sums (rx @ ry) = A2 @ suffix_sums ry"
    by (simp_all add: suffix_sums_append A_def A2_def \<sigma>_def \<rho>_def)
  have r': "table_rows (cx @ 0 # cy) (rx @ 0 # ry) = za @ row_of T (\<sigma>, \<rho>) # zb"
    unfolding table_rows_def T' s1 s2 using lA by (simp add: za_def zb_def)
  have r: "table_rows (cx @ cy) (rx @ ry) = za @ zb"
    unfolding table_rows_def T_def[symmetric] s3 s4 using lA by (simp add: za_def zb_def)
  show ?thesis
  proof (cases "T = 0")
    case True
    have z: "\<And>c. sum_list c = 0 \<Longrightarrow> \<forall>row \<in> set (table_rows c r0). fst row = NaN" for r0
    proof
      fix c :: "nat list" and row
      assume c: "sum_list c = 0" and mem: "row \<in> set (table_rows c r0)"
      from mem obtain tp fp where m: "(tp, fp) \<in> set (zip (suffix_sums c) (suffix_sums r0))"
        and row0: "row = row_of (sum_list c) (tp, fp)"
        unfolding table_rows_def by auto
      from row0 have row: "row = row_of 0 (tp, fp)" unfolding c .
      from m have "tp \<in> set (suffix_sums c)" by (rule set_zip_leftD)
      with c have "tp = 0" by (rule suffix_sums_zero)
      with row show "fst row = NaN" by (simp add: row_of_def fl_of_nat_def)
    qed
    from True have t0: "sum_list (cx @ cy) = 0" "sum_list (cx @ 0 # cy) = 0"
      by (simp_all add: T_def)
    have "length (table_rows (cx @ cy) (rx @ ry)) = length (cx @ cy)"
      using assms(1,2) by (simp add: table_rows_def length_suffix_sums)
    with assms(3) have n1: "table_rows (cx @ cy) (rx @ ry) \<noteq> []"
      by (metis length_0_conv)
    have n2: "table_rows (cx @ 0 # cy) (rx @ 0 # ry) \<noteq> []"
      by (simp add: r')
    from z[OF t0(1), of "rx @ ry"] n1 have "fst (last (table_rows (cx @ cy) (rx @ ry))) = NaN"
      using last_in_set by blast
    moreover from z[OF t0(2), of "rx @ 0 # ry"] n2
    have "fst (last (table_rows (cx @ 0 # cy) (rx @ 0 # ry))) = NaN"
      using last_in_set by blast
    ultimately show ?thesis using n1 n2 by (simp add: ap_rows_NaN)
  next
    case False
    define a :: rat where "a = of_nat \<sigma> / of_nat T"
    from False have f: "fst (row_of T (\<sigma>, \<rho>)) = Fin a"
      by (simp add: row_of_def fl_of_nat_def a_def)
    have "(if zb = [] then Fin 0 else fst (hd zb)) = Fin a"
    proof (cases "cy = []")
      case True
      then have "zb = []" "\<sigma> = 0" by (simp_all add: zb_def \<sigma>_def)
      then show ?thesis by (simp add: a_def)
    next
      case False
      with assms(2) have ry: "ry \<noteq> []" by auto
      from False ry have ne: "zip (suffix_sums cy) (suffix_sums ry) \<noteq> []"
        by (cases cy; cases ry) simp_all
      then have "hd zb = row_of T (hd (zip (suffix_sums cy) (suffix_sums ry)))"
        by (simp add: zb_def hd_map)
      also have "hd (zip (suffix_sums cy) (suffix_sums ry)) = (\<sigma>, \<rho>)"
        using False ry by (cases cy; cases ry) (simp_all add: \<sigma>_def \<rho>_def)
      finally show ?thesis using ne f by (simp add: zb_def)
    qed
    note ins = ap_rows_insert[OF this, of za "snd (row_of T (\<sigma>, \<rho>))"]
    from f have e: "row_of T (\<sigma>, \<rho>) = (Fin a, snd (row_of T (\<sigma>, \<rho>)))"
      by (simp add: prod_eq_iff)
    show ?thesis unfolding r r' by (subst e) (rule ins)
  qed
qed

lemma sorted_split_filter:
  "sorted ks \<Longrightarrow> t \<notin> set ks \<Longrightarrow>
     filter (\<lambda>k. k < t) ks @ filter (\<lambda>k. t < k) ks = (ks :: int list)"
proof (induction ks)
  case Nil
  show ?case by simp
next
  case (Cons k ks)
  show ?case
  proof (cases "k < t")
    case True
    with Cons show ?thesis by simp
  next
    case False
    with Cons.prems have kt: "t < k" by auto
    with Cons.prems(1) have "\<forall>x\<in>set ks. t < x" by auto
    then have "filter (\<lambda>k. k < t) ks = []" "filter (\<lambda>k. t < k) ks = ks"
      by (auto simp: filter_empty_conv filter_id_conv)
    with kt show ?thesis by simp
  qed
qed

lemma sort_insert_split:
  assumes "t \<notin> set (k1 @ (k2 :: int list))"
  shows "\<exists>xs ys. sort (k1 @ k2) = xs @ ys \<and> sort (k1 @ t # k2) = xs @ t # ys
              \<and> t \<notin> set xs \<and> t \<notin> set ys"
proof -
  let ?ks = "sort (k1 @ k2)"
  let ?xs = "filter (\<lambda>k. k < t) ?ks" and ?ys = "filter (\<lambda>k. t < k) ?ks"
  from assms have nt: "t \<notin> set ?ks" by simp
  have split: "?xs @ ?ys = ?ks"
    using sorted_split_filter[of ?ks t] nt by simp
  have "mset (?xs @ t # ?ys) = mset (k1 @ t # k2)"
  proof -
    have "mset (?xs @ ?ys) = mset (k1 @ k2)" unfolding split by simp
    then show ?thesis by simp
  qed
  moreover have "sorted (?xs @ t # ?ys)"
    by (auto simp: sorted_append intro: sorted_filter[where f = id, simplified])
  ultimately have "sort (k1 @ t # k2) = ?xs @ t # ?ys"
    by (rule properties_for_sort)
  with split show ?thesis by (intro exI[of _ ?xs] exI[of _ ?ys]) auto
qed

lemma map_of_insert_other:
  "k \<noteq> t \<Longrightarrow> map_of (c1 @ (t, z) # c2) k = map_of (c1 @ c2) k"
  by (simp add: map_add_def split: option.splits)

lemma map_of_insert_new:
  "t \<notin> fst ` set c1 \<Longrightarrow> map_of (c1 @ (t, z) # c2) t = Some z"
proof -
  assume "t \<notin> fst ` set c1"
  then have "map_of c1 t = None" by (simp add: map_of_eq_None_iff)
  then show ?thesis by (simp add: map_add_def)
qed

lemma table_of_insert:
  assumes "t \<notin> fst ` set (c1 @ c2)" "c1 @ c2 \<noteq> []"
  shows "\<exists>th th' cx cy rx ry.
           table_of (c1 @ c2) = table_stats th (cx @ cy) (rx @ ry)
         \<and> table_of (c1 @ (t, no_reads) # c2) = table_stats th' (cx @ 0 # cy) (rx @ 0 # ry)
         \<and> length cx = length rx \<and> length cy = length ry \<and> cx @ cy \<noteq> []"
proof -
  define look where "look = (\<lambda>k. the (map_of (c1 @ c2) k))"
  define look' where "look' = (\<lambda>k. the (map_of (c1 @ (t, no_reads) # c2) k))"
  let ?hc = "\<lambda>e. round_sig 3 (CONTAM e)" and ?hr = "\<lambda>e. round_sig 3 (REF e)"
  from assms(1) have t1: "t \<notin> fst ` set c1" by auto
  from assms(1) have "t \<notin> set (map fst c1 @ map fst c2)" by auto
  from sort_insert_split[OF this] obtain xs ys where
    s: "sort (map fst c1 @ map fst c2) = xs @ ys"
       "sort (map fst c1 @ t # map fst c2) = xs @ t # ys" "t \<notin> set xs" "t \<notin> set ys"
    by blast
  have same: "map look' zs = map look zs" if "t \<notin> set zs" for zs
  proof (rule map_cong[OF refl])
    fix x
    assume "x \<in> set zs"
    with that have "x \<noteq> t" by auto
    then show "look' x = look x"
      unfolding look_def look'_def by (rule arg_cong[OF map_of_insert_other])
  qed
  from t1 have new: "look' t = no_reads"
    unfolding look'_def by (simp add: map_of_insert_new del: map_of_append)
  have z: "round_sig 3 0 = 0" by (rule round_sig_small) simp
  define cx where "cx = map ?hc (map look xs)"
  define cy where "cy = map ?hc (map look ys)"
  define rx where "rx = map ?hr (map look xs)"
  define ry where "ry = map ?hr (map look ys)"
  have 1: "table_of (c1 @ c2)
             = table_stats (map (round_sig_int 6) (xs @ ys)) (cx @ cy) (rx @ ry)"
    unfolding table_of_def Let_def look_def[symmetric]
    using s(1) by (simp add: cx_def cy_def rx_def ry_def)
  have es: "map look' (xs @ t # ys) = map look xs @ no_reads # map look ys"
    using same[OF s(3)] same[OF s(4)] new by simp
  have "table_of (c1 @ (t, no_reads) # c2)
          = table_stats (map (round_sig_int 6) (xs @ t # ys))
              (map ?hc (map look' (xs @ t # ys))) (map ?hr (map look' (xs @ t # ys)))"
    unfolding table_of_def Let_def look'_def[symmetric]
    using s(2) by simp
  also have "\<dots> = table_stats (map (round_sig_int 6) (xs @ t # ys)) (cx @ 0 # cy) (rx @ 0 # ry)"
    unfolding es by (simp add: cx_def cy_def rx_def ry_def no_reads_def z)
  finally have 2: "table_of (c1 @ (t, no_reads) # c2)
             = table_stats (map (round_sig_int 6) (xs @ t # ys)) (cx @ 0 # cy) (rx @ 0 # ry)" .
  from assms(2) have "sort (map fst c1 @ map fst c2) \<noteq> []"
    by (metis length_0_conv length_sort length_map map_append)
  with s(1) have 3: "cx @ cy \<noteq> []" by (simp add: cx_def cy_def)
  have 4: "length cx = length rx" "length cy = length ry"
    by (simp_all add: cx_def cy_def rx_def ry_def)
  from 1 2 3 4 show ?thesis by blast
qed

lemma table_of_average_precision:
  "counts \<noteq> [] \<Longrightarrow>
     fst (calculate_average_precision (table_of counts) logger)
       = Inr (ap_rows (zip (df_Sensitivity (table_of counts)) (df_Precision (table_of counts))))"
proof -
  assume ne: "counts \<noteq> []"
  then have "df_Threshold (table_of counts) \<noteq> []"
    using table_of_lengths(1)[of counts] by (metis length_0_conv)
  then show ?thesis
    by (intro calculate_average_precision_rows) (simp_all add: table_of_lengths)
qed

text \<open>
  C9. Let a mapping have a table, and let a further threshold, not yet a key, be added
  with \<open>REF = 0\<close> and \<open>CONTAM = 0\<close>. Then the new mapping has a table too, and the average
  precision computed from it is the one computed from the old table (floats taken as
  exact numbers with not-a-number and infinities).
\<close>

theorem average_precision_zero_row:
  "t \<notin> fst ` set (c1 @ c2) \<and> write_table (c1 @ c2) fh = (Inr df, fh1) \<longrightarrow>
     (\<exists>df'. fst (write_table (c1 @ (t, no_reads) # c2) fh') = Inr df'
         \<and> fst (calculate_average_precision df' logger)
           = fst (calculate_average_precision df logger))"
proof
  assume a: "t \<notin> fst ` set (c1 @ c2) \<and> write_table (c1 @ c2) fh = (Inr df, fh1)"
  then have t: "t \<notin> fst ` set (c1 @ c2)" and w: "write_table (c1 @ c2) fh = (Inr df, fh1)"
    by simp_all
  from write_table_Inr[OF w] have ne: "c1 @ c2 \<noteq> []" and df: "df = table_of (c1 @ c2)"
    by simp_all
  have ne': "c1 @ (t, no_reads) # c2 \<noteq> []" by simp
  from table_of_insert[OF t ne] obtain th th' cx cy rx ry where
    i: "table_of (c1 @ c2) = table_stats th (cx @ cy) (rx @ ry)"
       "table_of (c1 @ (t, no_reads) # c2) = table_stats th' (cx @ 0 # cy) (rx @ 0 # ry)"
       "length cx = length rx" "length cy = length ry" "cx @ cy \<noteq> []"
    by blast
  have "fst (calculate_average_precision (table_of (c1 @ (t, no_reads) # c2)) logger)
          = Inr (ap_rows (table_rows (cx @ 0 # cy) (rx @ 0 # ry)))"
    unfolding table_of_average_precision[OF ne'] unfolding i(2) table_stats_rows ..
  also have "\<dots> = Inr (ap_rows (table_rows (cx @ cy) (rx @ ry)))"
    by (simp only: table_rows_zero_row[OF i(3,4,5)])
  also have "\<dots> = fst (calculate_average_precision (table_of (c1 @ c2)) logger)"
    unfolding table_of_average_precision[OF ne] unfolding i(1) table_stats_rows ..
  finally show "\<exists>df'. fst (write_table (c1 @ (t, no_reads) # c2) fh') = Inr df'
         \<and> fst (calculate_average_precision df' logger)
           = fst (calculate_average_precision df logger)"
    by (simp add: write_table_nonempty[OF ne'] df)
qed

lemma example_table_average_precision:
  "fst (calculate_average_precision (table_of example_counts) []) = Inr (Fin (9 / 13))"
proof -
  have ne: "example_counts \<noteq> []" by (simp add: example_counts_def)
  from example_table[of "\<lparr>written = [], closed = False\<rparr>"]
  have T: "table_of example_counts =
     \<lparr>df_Threshold = [0, 1], df_CONTAM = [5, 8], df_REF = [10, 2],
          df_TP = [13, 8], df_FP = [12, 2],
          df_Sensitivity = [Fin 1, Fin (8 / 13)],
          df_Fallout = [Fin 1, Fin (1 / 6)],
          df_Precision = [Fin (13 / 25), Fin (4 / 5)],
          df_F1 = [Fin (13 / 19), Fin (16 / 23)],
          df_F2 = [Fin (13 / 17), Fin (2 / 3)]\<rparr>"
    by (simp add: write_table_nonempty[OF ne])
  show ?thesis
    unfolding T
    by (simp add: calculate_average_precision_def last_valid_index_def
          np_diff_def py_sum_def fsub_def Let_def)
qed

theorem average_precision_zero_row_witness:
  "2 \<notin> fst ` set example_counts
   \<and> fst (write_table example_counts \<lparr>written = [], closed = False\<rparr>)
       = Inr (table_of example_counts)
   \<and> (\<exists>df'. fst (write_table (example_counts @ [(2, no_reads)]) \<lparr>written = [], closed = False\<rparr>)
               = Inr df'
         \<and> fst (calculate_average_precision df' []) = Inr (Fin (9 / 13)))"
proof -
  let ?fh = "\<lparr>written = [], closed = False\<rparr>"
  have ne: "example_counts \<noteq> []" by (simp add: example_counts_def)
  have 1: "2 \<notin> fst ` set (example_counts @ [])" by (simp add: example_counts_def)
  have 2: "write_table (example_counts @ []) ?fh
             = (Inr (table_of example_counts),
                ?fh\<lparr>written := written ?fh @ [table_of example_counts], closed := True\<rparr>)"
    using write_table_nonempty[OF ne, of ?fh] by simp
  from average_precision_zero_row [of 2 example_counts "[]" ?fh "table_of example_counts" _ ?fh "[]"]
    1 2
  have "\<exists>df'. fst (write_table (example_counts @ [(2, no_reads)]) ?fh) = Inr df'
         \<and> fst (calculate_average_precision df' [])
           = fst (calculate_average_precision (table_of example_counts) [])"
    by blast
  with example_table_average_precision 1 2 show ?thesis by simp
qed

end
